theory Spec2Isabelle
  imports Main "HOL-Library.Word" "HOL-Library.Sublist"
begin

unbundle bit_operations_syntax

section \<open>Data representation\<close>

text \<open>
  A \<open>Uint8Array\<close> is a list of octets. A JavaScript string is a sequence of UTF-16 code
  units: \<open>length\<close>, \<open>slice\<close>, \<open>lastIndexOf\<close>, \<open>startsWith\<close> and \<open>===\<close> all work on
  code units. \<open>str\<close> writes an ASCII literal of the source as such a sequence.
\<close>

type_synonym byte = "8 word"
type_synonym bytes = "byte list"
type_synonym jschar = "16 word"
type_synonym jsstring = "jschar list"

definition str :: "string \<Rightarrow> jsstring" where
  "str s = map of_char s"

definition startsWith :: "jsstring \<Rightarrow> jsstring \<Rightarrow> bool" where
  "startsWith s t = (take (length t) s = t)"


text \<open>
  \<open>Array.prototype.slice\<close>, \<open>String.prototype.slice\<close> and \<open>TypedArray.prototype.slice\<close>
  agree: a negative index counts from the end, and both indices are clamped to the length.
\<close>

definition rel_index :: "'a list \<Rightarrow> int \<Rightarrow> nat" where
  "rel_index xs i = (if i < 0 then nat (max (int (length xs) + i) 0) else min (nat i) (length xs))"

definition slice :: "'a list \<Rightarrow> int \<Rightarrow> int \<Rightarrow> 'a list" where
  "slice xs a b = take (rel_index xs b - rel_index xs a) (drop (rel_index xs a) xs)"

definition slice_from :: "'a list \<Rightarrow> int \<Rightarrow> 'a list" where
  "slice_from xs a = drop (rel_index xs a) xs"

text \<open>\<open>s.lastIndexOf(c, from)\<close> for a one-character search string; \<open>-1\<close> when absent.\<close>

definition lastIndexOf :: "jsstring \<Rightarrow> jschar \<Rightarrow> nat \<Rightarrow> int" where
  "lastIndexOf s c from =
     (case filter (\<lambda>i. s ! i = c) (rev [0 ..< min (Suc from) (length s)]) of
        [] \<Rightarrow> - 1
      | i # _ \<Rightarrow> int i)"

section \<open>TextEncoder and TextDecoder\<close>

text \<open>
  \<open>ENC.encode\<close> is the platform's UTF-8 encoder: the string is first read as a sequence of
  code points (a surrogate pair is one code point, a lone surrogate becomes U+FFFD), and
  each code point is written in one to four octets.
\<close>

definition is_high_surrogate :: "jschar \<Rightarrow> bool" where
  "is_high_surrogate u = (0xD800 \<le> u \<and> u \<le> 0xDBFF)"

definition is_low_surrogate :: "jschar \<Rightarrow> bool" where
  "is_low_surrogate u = (0xDC00 \<le> u \<and> u \<le> 0xDFFF)"

fun code_points :: "jsstring \<Rightarrow> nat list" where
  "code_points [] = []"
| "code_points (u # r) =
     (if is_high_surrogate u then
        (case r of
           [] \<Rightarrow> [0xFFFD]
         | v # r' \<Rightarrow>
             if is_low_surrogate v
             then (0x10000 + (unat u - 0xD800) * 0x400 + (unat v - 0xDC00)) # code_points r'
             else 0xFFFD # code_points r)
      else if is_low_surrogate u then 0xFFFD # code_points r
      else unat u # code_points r)"

definition utf8_bytes :: "nat \<Rightarrow> bytes" where
  "utf8_bytes c =
     (if c < 0x80 then [of_nat c]
      else if c < 0x800 then [of_nat (0xC0 + c div 64), of_nat (0x80 + c mod 64)]
      else if c < 0x10000 then
        [of_nat (0xE0 + c div 4096), of_nat (0x80 + (c div 64) mod 64), of_nat (0x80 + c mod 64)]
      else
        [of_nat (0xF0 + c div 262144), of_nat (0x80 + (c div 4096) mod 64),
         of_nat (0x80 + (c div 64) mod 64), of_nat (0x80 + c mod 64)])"

definition ENC :: "jsstring \<Rightarrow> bytes" where
  "ENC s = concat (map utf8_bytes (code_points s))"

text \<open>
  \<open>DEC.decode\<close> is the platform's UTF-8 decoder in its default mode: an ill-formed
  sequence becomes U+FFFD and the octet that broke it is read again as the start of a new
  sequence; a leading byte order mark is dropped. The decoder state is the code point
  under construction, the number of continuation octets still needed, and the bounds on
  the next octet.
\<close>

type_synonym utf8_state = "nat \<times> nat \<times> nat \<times> nat"

definition utf8_init :: utf8_state where
  "utf8_init = (0, 0, 0x80, 0xBF)"

definition first_octet :: "nat \<Rightarrow> nat list \<times> utf8_state" where
  "first_octet b =
     (if b \<le> 0x7F then ([b], utf8_init)
      else if 0xC2 \<le> b \<and> b \<le> 0xDF then ([], (b mod 32, 1, 0x80, 0xBF))
      else if 0xE0 \<le> b \<and> b \<le> 0xEF then
        ([], (b mod 16, 2, if b = 0xE0 then 0xA0 else 0x80, if b = 0xED then 0x9F else 0xBF))
      else if 0xF0 \<le> b \<and> b \<le> 0xF4 then
        ([], (b mod 8, 3, if b = 0xF0 then 0x90 else 0x80, if b = 0xF4 then 0x8F else 0xBF))
      else ([0xFFFD], utf8_init))"

fun utf8_decode :: "utf8_state \<Rightarrow> nat list \<Rightarrow> nat list" where
  "utf8_decode (cp, needed, lower, upper) [] = (if needed \<noteq> 0 then [0xFFFD] else [])"
| "utf8_decode (cp, needed, lower, upper) (b # bs) =
     (if needed = 0 then fst (first_octet b) @ utf8_decode (snd (first_octet b)) bs
      else if b < lower \<or> upper < b then
        0xFFFD # fst (first_octet b) @ utf8_decode (snd (first_octet b)) bs
      else if needed = 1 then (cp * 64 + b mod 64) # utf8_decode utf8_init bs
      else utf8_decode (cp * 64 + b mod 64, needed - 1, 0x80, 0xBF) bs)"

definition strip_bom :: "nat list \<Rightarrow> nat list" where
  "strip_bom cps = (case cps of [] \<Rightarrow> [] | c # r \<Rightarrow> if c = 0xFEFF then r else cps)"

definition utf16_units :: "nat \<Rightarrow> jsstring" where
  "utf16_units c =
     (if c < 0x10000 then [of_nat c]
      else [of_nat (0xD800 + (c - 0x10000) div 0x400), of_nat (0xDC00 + (c - 0x10000) mod 0x400)])"

definition DEC :: "bytes \<Rightarrow> jsstring" where
  "DEC bs = concat (map utf16_units (strip_bom (utf8_decode utf8_init (map unat bs))))"

text \<open>
  For the proofs: the decoder states that can arise (the code point under construction
  stays within the bounds that its leading octet allows), and whether a state is inside
  a sequence.
\<close>

definition utf8_ok :: "utf8_state \<Rightarrow> bool" where
  "utf8_ok st =
     (case st of (cp, needed, lower, upper) \<Rightarrow>
        0x80 \<le> lower \<and> upper \<le> 0xBF
        \<and> (needed = 0
           \<or> (needed = 1 \<and> 2 \<le> cp \<and> cp < 0x4400)
           \<or> (needed = 2 \<and> (1 \<le> cp \<or> 0x90 \<le> lower) \<and> cp * 64 + (upper - 128) < 0x4400)
           \<or> (needed = 3 \<and> (1 \<le> cp \<or> 0x90 \<le> lower)
               \<and> (cp * 64 + (upper - 128)) * 64 + 63 < 0x4400)))"

definition utf8_pending :: "utf8_state \<Rightarrow> nat" where
  "utf8_pending st = (case st of (cp, needed, lower, upper) \<Rightarrow> if needed = 0 then 0 else 1)"

section \<open>Numbers as text\<close>

text \<open>\<open>num.toString(8)\<close> for a non-negative integer, and \<open>padStart(len, "0")\<close>.\<close>

fun toString8 :: "nat \<Rightarrow> jsstring" where
  "toString8 n = (if n < 8 then [of_nat (48 + n)] else toString8 (n div 8) @ [of_nat (48 + n mod 8)])"

declare toString8.simps [simp del]

definition padStart :: "jsstring \<Rightarrow> nat \<Rightarrow> jschar \<Rightarrow> jsstring" where
  "padStart s len c = replicate (len - length s) c @ s"

text \<open>
  White space as \<open>trim\<close> and \<open>parseInt\<close> see it, and the line terminators that \<open>.\<close> of a
  regular expression does not match.
\<close>

definition is_white_space :: "jschar \<Rightarrow> bool" where
  "is_white_space c =
     (c \<in> {0x9, 0xA, 0xB, 0xC, 0xD, 0x20, 0xA0, 0x1680, 0x2028, 0x2029, 0x202F, 0x205F, 0x3000, 0xFEFF}
      \<or> (0x2000 \<le> c \<and> c \<le> 0x200A))"

definition is_line_terminator :: "jschar \<Rightarrow> bool" where
  "is_line_terminator c = (c \<in> {0xA, 0xD, 0x2028, 0x2029})"

definition trim :: "jsstring \<Rightarrow> jsstring" where
  "trim s = rev (dropWhile is_white_space (rev (dropWhile is_white_space s)))"

definition is_octal_digit :: "jschar \<Rightarrow> bool" where
  "is_octal_digit c = (0x30 \<le> c \<and> c \<le> 0x37)"

definition octal_value :: "jsstring \<Rightarrow> nat" where
  "octal_value ds = foldl (\<lambda>a d. a * 8 + (unat d - 48)) 0 ds"

text \<open>
  \<open>parseInt(s, 8)\<close>: leading white space and one sign are skipped, then the longest run of
  octal digits is read; \<open>None\<close> is \<open>NaN\<close>, the result when that run is empty.
\<close>

definition parseInt8 :: "jsstring \<Rightarrow> int option" where
  "parseInt8 s =
     (let S = dropWhile is_white_space s;
          sign = (case S of [] \<Rightarrow> 1 | c # _ \<Rightarrow> if c = 0x2D then - 1 else (1::int));
          S' = (case S of [] \<Rightarrow> [] | c # r \<Rightarrow> if c = 0x2D \<or> c = 0x2B then r else S);
          Z = takeWhile is_octal_digit S'
      in if Z = [] then None else Some (sign * int (octal_value Z)))"

text \<open>\<open>s.replace(/\0.*/g, "")\<close>: every NUL is removed together with the rest of its line.\<close>

function replace_nul :: "jsstring \<Rightarrow> jsstring" where
  "replace_nul [] = []"
| "replace_nul (c # cs) =
     (if c = 0 then replace_nul (dropWhile (\<lambda>d. \<not> is_line_terminator d) cs)
      else c # replace_nul cs)"
  by pat_completeness auto
termination
  by (relation "measure length") (auto simp: length_dropWhile_le less_Suc_eq_le)

text \<open>The remainder operator \<open>%\<close> takes the sign of its left operand.\<close>

definition js_rem :: "int \<Rightarrow> int \<Rightarrow> int" where
  "js_rem a b = sgn a * (\<bar>a\<bar> mod \<bar>b\<bar>)"

section \<open>The container writer\<close>

text \<open>
  \<open>writeStr\<close> and \<open>writeOctal\<close> are the two closures of \<open>createTarHeader\<close>; the buffer
  they write to is passed and returned. A store beyond the end of a typed array is ignored,
  as \<open>list_update\<close> ignores it.
\<close>

definition writeStr :: "bytes \<Rightarrow> jsstring \<Rightarrow> nat \<Rightarrow> nat \<Rightarrow> bytes" where
  "writeStr buffer s offset len =
     (let b = ENC s
      in fold (\<lambda>i buf. buf[offset + i := b ! i]) [0 ..< min len (length b)] buffer)"

definition writeOctal :: "bytes \<Rightarrow> nat \<Rightarrow> nat \<Rightarrow> nat \<Rightarrow> bytes" where
  "writeOctal buffer num offset len =
     writeStr buffer (padStart (toString8 num) (len - 1) 0x30) offset (len - 1)"

text \<open>
  The long-name block of \<open>createTarHeader\<close>; the result is the pair of \<open>name\<close> and
  \<open>prefix\<close> after it.
\<close>

definition split_name :: "jsstring \<Rightarrow> jsstring \<times> jsstring" where
  "split_name filename =
     (if length filename > 100 then
        (let splitIndex = lastIndexOf filename 0x2F 154;
             splitIndex' =
               (if splitIndex = - 1 \<or> splitIndex < int (length filename) - 100
                then max 0 (int (length filename) - 100) else splitIndex);
             prefix = slice filename 0 splitIndex';
             name = slice_from filename (splitIndex' + (if prefix \<noteq> [] then 1 else 0))
         in (name, prefix))
      else (filename, []))"

text \<open>
  The header before its checksum is written: every field set, the checksum field filled
  with spaces. The mode is \<open>0o664 = 436\<close>; \<open>now\<close> is \<open>Math.floor(Date.now() / 1000)\<close>.
\<close>

definition header_fields :: "jsstring \<Rightarrow> nat \<Rightarrow> bool \<Rightarrow> nat \<Rightarrow> bytes" where
  "header_fields filename sz isDir now =
     (let (name, prefix) = split_name filename;
          b0 = replicate 512 0;
          b1 = writeStr b0 name 0 100;
          b2 = writeOctal b1 436 100 8;
          b3 = writeOctal b2 0 108 8;
          b4 = writeOctal b3 0 116 8;
          b5 = writeOctal b4 sz 124 12;
          b6 = writeOctal b5 now 136 12;
          b7 = writeStr b6 (str ''        '') 148 8;
          b8 = b7[156 := (if isDir then 53 else 48)];
          b9 = writeStr b8 (str ''ustar'') 257 6;
          b10 = writeStr b9 (str ''00'') 263 2
      in if prefix \<noteq> [] then writeStr b10 prefix 345 155 else b10)"

definition createTarHeader :: "jsstring \<Rightarrow> nat \<Rightarrow> bool \<Rightarrow> nat \<Rightarrow> bytes" where
  "createTarHeader filename sz isDir now =
     (let buffer = header_fields filename sz isDir now;
          sum = sum_list (map unat (take 512 buffer))
      in writeOctal buffer sum 148 7)"

text \<open>
  \<open>TarWriter\<close>: the chunks handed to the underlying writer, in order, and the position
  counter. An entry's data is a string or an octet array.
\<close>

record TarWriter =
  written :: "bytes list"
  pos :: nat

datatype data = Text jsstring | Binary bytes

definition TarWriter_new :: TarWriter where
  "TarWriter_new = \<lparr>written = [], pos = 0\<rparr>"

definition "write" :: "TarWriter \<Rightarrow> bytes \<Rightarrow> TarWriter" where
  "write w chunk = w\<lparr>written := written w @ [chunk], pos := pos w + length chunk\<rparr>"

definition pad :: "TarWriter \<Rightarrow> TarWriter" where
  "pad w =
     (let padding = (512 - pos w mod 512) mod 512
      in if padding > 0 then write w (replicate padding 0) else w)"

definition writeEntry :: "TarWriter \<Rightarrow> jsstring \<Rightarrow> data \<Rightarrow> nat \<Rightarrow> TarWriter" where
  "writeEntry w path d now =
     (let bytes = (case d of Text s \<Rightarrow> ENC s | Binary b \<Rightarrow> b);
          w1 = write w (createTarHeader path (length bytes) False now);
          w2 = write w1 bytes
      in pad w2)"

definition close :: "TarWriter \<Rightarrow> TarWriter" where
  "close w = write w (replicate 1024 0)"

text \<open>
  A sequence of \<open>writeEntry\<close> calls followed by \<open>close\<close>; each entry comes with the clock
  reading of its header.
\<close>

fun writeEntries :: "TarWriter \<Rightarrow> (jsstring \<times> data \<times> nat) list \<Rightarrow> TarWriter" where
  "writeEntries w [] = w"
| "writeEntries w ((path, d, now) # es) = writeEntries (writeEntry w path d now) es"

definition encode :: "(jsstring \<times> data \<times> nat) list \<Rightarrow> bytes list" where
  "encode es = written (close (writeEntries TarWriter_new es))"

section \<open>The incremental buffer reader\<close>

text \<open>
  Every \<open>throw\<close> of the source is a value of \<open>error\<close>; \<open>StreamFailure\<close> stands for an error
  that a platform stream raises by itself (the decompressor on ill-formed input), and
  \<open>CollaboratorFailure\<close> for an exception out of a collaborator (\<open>JSON.parse\<close>, the record
  store, a file handle).
\<close>

datatype error =
    FileTooSmall
  | NotEncrypted
  | CorruptChunk
  | IncorrectPassword
  | UnexpectedEOF
  | PasswordRequired
  | RangeError
  | StreamFailure
  | CollaboratorFailure

text \<open>
  A readable stream is the chunks it delivers and the way it ends: closed, or errored.
  The reader's state is the closure variables \<open>buffer\<close> and \<open>done\<close> together with what the
  underlying stream has still to deliver. \<open>DecryptionSource.readable\<close> and \<open>importData\<close>
  each declare the same \<open>ensure\<close> and \<open>consume\<close>; they are modelled once.
\<close>

datatype outcome = Closed | Errored error

type_synonym stream = "bytes list \<times> outcome"

record reader =
  buffer :: bytes
  is_done :: bool
  source :: "bytes list"
  ending :: outcome

definition reader_new :: "stream \<Rightarrow> reader" where
  "reader_new s = \<lparr>buffer = [], is_done = False, source = fst s, ending = snd s\<rparr>"

text \<open>\<open>reader.read()\<close>: the next chunk, or \<open>None\<close> for \<open>done\<close>, or the stream's error.\<close>

definition read :: "reader \<Rightarrow> error + (bytes option \<times> reader)" where
  "read r =
     (case source r of
        v # rest \<Rightarrow> Inr (Some v, r\<lparr>source := rest\<rparr>)
      | [] \<Rightarrow> (case ending r of Closed \<Rightarrow> Inr (None, r) | Errored e \<Rightarrow> Inl e))"

function ensure :: "int \<Rightarrow> reader \<Rightarrow> error + (bool \<times> reader)" where
  "ensure n r =
     (if int (length (buffer r)) < n \<and> \<not> is_done r then
        (case read r of
           Inl e \<Rightarrow> Inl e
         | Inr (None, r') \<Rightarrow> ensure n (r'\<lparr>is_done := True\<rparr>)
         | Inr (Some v, r') \<Rightarrow> ensure n (r'\<lparr>buffer := buffer r' @ v\<rparr>))
      else Inr (n \<le> int (length (buffer r)), r))"
  by pat_completeness auto
termination
  by (relation "measure (\<lambda>(n, r). length (source r) + (if is_done r then 0 else 1))")
     (auto simp: read_def split: list.splits outcome.splits)

declare ensure.simps [simp del]

definition consume :: "int \<Rightarrow> reader \<Rightarrow> bytes \<times> reader" where
  "consume n r = (slice (buffer r) 0 n, r\<lparr>buffer := slice_from (buffer r) n\<rparr>)"

text \<open>
  The collaborators of \<open>importData\<close>, with whatever state \<open>'c\<close> they keep (\<open>localStorage\<close>,
  the open databases, the file tree). A call returns the new state, or \<open>None\<close> when it
  raises an exception. \<open>assign_localStorage\<close>, \<open>set_sessionStorage\<close> and \<open>set_cookies\<close> take
  the decoded text, parse it with \<open>JSON.parse\<close> and store the items; \<open>onCustomItem\<close> is
  \<open>opts.onCustomItem\<close>, which may be absent; \<open>restore_idb\<close> is the branch for \<open>data/idb/\<close>
  (\<open>CBOR.decode\<close> and the calls on \<open>indexedDB\<close>), absent when \<open>window.CBOR\<close> is missing or
  \<open>opts.idb\<close> is \<open>false\<close>; \<open>open_file\<close> walks the directories of a path with
  \<open>getDirectoryHandle\<close>, then calls \<open>getFileHandle\<close> and \<open>createWritable\<close>; \<open>write_file\<close> and
  \<open>close_file\<close> are \<open>writer.write\<close> and \<open>writer.close\<close> on that writable.
\<close>

record 'c collaborators =
  assign_localStorage :: "jsstring \<Rightarrow> 'c \<Rightarrow> 'c option"
  set_sessionStorage :: "jsstring \<Rightarrow> 'c \<Rightarrow> 'c option"
  set_cookies :: "jsstring \<Rightarrow> 'c \<Rightarrow> 'c option"
  onCustomItem :: "(jsstring \<Rightarrow> bytes \<Rightarrow> 'c \<Rightarrow> 'c option) option"
  restore_idb :: "(jsstring \<Rightarrow> bytes \<Rightarrow> 'c \<Rightarrow> 'c option) option"
  open_file :: "jsstring \<Rightarrow> 'c \<Rightarrow> 'c option"
  write_file :: "bytes \<Rightarrow> 'c \<Rightarrow> 'c option"
  close_file :: "'c \<Rightarrow> 'c option"

text \<open>
  \<open>streamToFile\<close>: the chunks written to the file, in order, with the reader and the
  collaborators' state afterwards. The loop after the buffered part is \<open>stream_loop\<close>.
\<close>

function stream_loop ::
    "'c collaborators \<Rightarrow> int \<Rightarrow> reader \<Rightarrow> 'c \<Rightarrow> bytes list
       \<Rightarrow> error + (bytes list \<times> reader \<times> 'c)" where
  "stream_loop C remaining r c out =
     (if remaining > 0 then
        (case read r of
           Inl e \<Rightarrow> Inl e
         | Inr (None, r') \<Rightarrow> Inr (out, r'\<lparr>is_done := True\<rparr>, c)
         | Inr (Some v, r') \<Rightarrow>
             if int (length v) \<le> remaining then
               (case write_file C v c of
                  None \<Rightarrow> Inl CollaboratorFailure
                | Some c' \<Rightarrow> stream_loop C (remaining - int (length v)) r' c' (out @ [v]))
             else
               (case write_file C (slice v 0 remaining) c of
                  None \<Rightarrow> Inl CollaboratorFailure
                | Some c' \<Rightarrow>
                    Inr (out @ [slice v 0 remaining], r'\<lparr>buffer := slice_from v remaining\<rparr>, c')))
      else Inr (out, r, c))"
  by pat_completeness auto
termination
  by (relation "measure (\<lambda>(C, n, r, c, out). length (source r))")
     (auto simp: read_def split: list.splits outcome.splits)

declare stream_loop.simps [simp del]

definition streamToFile ::
    "'c collaborators \<Rightarrow> int \<Rightarrow> reader \<Rightarrow> 'c \<Rightarrow> error + (bytes list \<times> reader \<times> 'c)" where
  "streamToFile C bytes r c =
     (case (if length (buffer r) > 0 then
              (let toWrite = min (int (length (buffer r))) bytes
               in case write_file C (slice (buffer r) 0 toWrite) c of
                    None \<Rightarrow> Inl CollaboratorFailure
                  | Some c' \<Rightarrow>
                      stream_loop C (bytes - toWrite)
                        (r\<lparr>buffer := slice_from (buffer r) toWrite\<rparr>) c'
                        [slice (buffer r) 0 toWrite])
            else stream_loop C bytes r c []) of
        Inl e \<Rightarrow> Inl e
      | Inr (out, r', c') \<Rightarrow>
          (case close_file C c' of
             None \<Rightarrow> Inl CollaboratorFailure
           | Some c'' \<Rightarrow> Inr (out, r', c'')))"

definition readToMemory :: "int \<Rightarrow> reader \<Rightarrow> error + (bytes \<times> reader)" where
  "readToMemory bytes r =
     (case ensure bytes r of
        Inl e \<Rightarrow> Inl e
      | Inr (ok, r') \<Rightarrow> if \<not> ok then Inl UnexpectedEOF else Inr (consume bytes r'))"

function skipBytes :: "int \<Rightarrow> reader \<Rightarrow> error + reader" where
  "skipBytes remaining r =
     (if remaining > 0 then
        (if length (buffer r) > 0 then
           (let take = min (int (length (buffer r))) remaining
            in skipBytes (remaining - take) (r\<lparr>buffer := slice_from (buffer r) take\<rparr>))
         else
           (case read r of
              Inl e \<Rightarrow> Inl e
            | Inr (None, r') \<Rightarrow> Inr (r'\<lparr>is_done := True\<rparr>)
            | Inr (Some v, r') \<Rightarrow>
                if int (length v) \<le> remaining then skipBytes (remaining - int (length v)) r'
                else Inr (r'\<lparr>buffer := slice_from v remaining\<rparr>)))
      else Inr r)"
  by pat_completeness auto
termination
  by (relation "measure (\<lambda>(n, r). length (source r) + length (buffer r))")
     (auto simp: read_def slice_from_def rel_index_def split: list.splits outcome.splits)

declare skipBytes.simps [simp del]

subsection \<open>What the reader operations do to the unread octets\<close>

text \<open>
  \<open>pending\<close> is everything not yet consumed: the buffer, then what the stream still holds.
  \<open>reader_ok\<close> says that \<open>done\<close> is only set once the stream has closed.
\<close>

definition pending :: "reader \<Rightarrow> bytes" where
  "pending r = buffer r @ concat (source r)"

definition reader_ok :: "reader \<Rightarrow> bool" where
  "reader_ok r = (is_done r \<longrightarrow> source r = [] \<and> ending r = Closed)"

lemma ensure_Nil:
  "source r = [] \<Longrightarrow> ensure n r =
     (if int (length (buffer r)) < n \<and> \<not> is_done r then
        (case ending r of Closed \<Rightarrow> Inr (False, r\<lparr>is_done := True\<rparr>) | Errored e \<Rightarrow> Inl e)
      else Inr (n \<le> int (length (buffer r)), r))"
  by (subst ensure.simps, subst ensure.simps) (simp add: read_def split: outcome.splits)

lemma ensure_Cons:
  "source r = v # vs \<Longrightarrow> ensure n r =
     (if int (length (buffer r)) < n \<and> \<not> is_done r
      then ensure n (r\<lparr>source := vs, buffer := buffer r @ v\<rparr>)
      else Inr (n \<le> int (length (buffer r)), r))"
  by (subst ensure.simps) (simp add: read_def)

lemma ensure_Inr:
  "ensure n r = Inr (ok, r') \<Longrightarrow>
     pending r' = pending r \<and> ending r' = ending r \<and> ok = (n \<le> int (length (buffer r')))
     \<and> (reader_ok r \<longrightarrow> reader_ok r' \<and> ok = (n \<le> int (length (pending r))) \<and> (\<not> ok \<longrightarrow> ending r = Closed))"
proof (induction "source r" arbitrary: r)
  case Nil
  then show ?case
    by (auto simp: ensure_Nil[OF Nil.hyps[symmetric]] pending_def reader_ok_def split: if_splits outcome.splits)
next
  case (Cons v vs)
  show ?case
  proof (cases "int (length (buffer r)) < n \<and> \<not> is_done r")
    case True
    let ?r1 = "r\<lparr>source := vs, buffer := buffer r @ v\<rparr>"
    from Cons.prems True have "ensure n ?r1 = Inr (ok, r')"
      by (simp add: ensure_Cons[OF Cons.hyps(2)[symmetric]])
    from Cons.hyps(1)[of ?r1, OF _ this] Cons.hyps(2)[symmetric] True show ?thesis
      by (auto simp: pending_def reader_ok_def)
  next
    case False
    with Cons.prems Cons.hyps(2)[symmetric] show ?thesis
      by (auto simp: ensure_Cons[OF Cons.hyps(2)[symmetric]] pending_def reader_ok_def)
  qed
qed

lemma ensure_Inl:
  "ensure n r = Inl e \<Longrightarrow> ending r = Errored e \<and> int (length (pending r)) < n"
proof (induction "source r" arbitrary: r)
  case Nil
  then show ?case
    by (auto simp: ensure_Nil[OF Nil.hyps[symmetric]] pending_def split: if_splits outcome.splits)
next
  case (Cons v vs)
  let ?r1 = "r\<lparr>source := vs, buffer := buffer r @ v\<rparr>"
  from Cons.prems have c: "int (length (buffer r)) < n \<and> \<not> is_done r"
    by (auto simp: ensure_Cons[OF Cons.hyps(2)[symmetric]] split: if_splits)
  with Cons.prems have "ensure n ?r1 = Inl e"
    by (simp add: ensure_Cons[OF Cons.hyps(2)[symmetric]])
  from Cons.hyps(1)[of ?r1, OF _ this] Cons.hyps(2)[symmetric] show ?case
    by (simp add: pending_def)
qed

lemma ensure_Closed:
  assumes "ending r = Closed"
  shows "\<exists>ok r'. ensure n r = Inr (ok, r')"
proof (cases "ensure n r")
  case (Inl e)
  with ensure_Inl[OF Inl] assms show ?thesis by simp
next
  case (Inr p)
  then show ?thesis by (cases p) simp
qed

lemma ensure_enough:
  assumes "reader_ok r" "n \<le> int (length (pending r))"
  shows "\<exists>r'. ensure n r = Inr (True, r') \<and> pending r' = pending r \<and> ending r' = ending r
               \<and> reader_ok r' \<and> n \<le> int (length (buffer r'))"
proof (cases "ensure n r")
  case (Inl e)
  with ensure_Inl[OF Inl] assms show ?thesis by simp
next
  case (Inr p)
  obtain ok r' where "p = (ok, r')" by (cases p)
  with Inr ensure_Inr[of n r ok r'] assms show ?thesis by auto
qed

lemma consume_enough:
  assumes "0 \<le> n" "n \<le> int (length (buffer r))"
  shows "fst (consume n r) = take (nat n) (pending r)"
    and "pending (snd (consume n r)) = drop (nat n) (pending r)"
    and "ending (snd (consume n r)) = ending r"
    and "reader_ok r \<Longrightarrow> reader_ok (snd (consume n r))"
  using assms by (auto simp: consume_def slice_def slice_from_def rel_index_def pending_def reader_ok_def)

lemma skipBytes_nonpos: "n \<le> 0 \<Longrightarrow> skipBytes n r = Inr r"
  by (subst skipBytes.simps) simp

lemma skipBytes_Nil:
  "source r = [] \<Longrightarrow> buffer r = [] \<Longrightarrow> 0 < n \<Longrightarrow> skipBytes n r =
     (case ending r of Closed \<Rightarrow> Inr (r\<lparr>is_done := True\<rparr>) | Errored e \<Rightarrow> Inl e)"
  by (subst skipBytes.simps) (simp add: read_def split: outcome.splits)

lemma skipBytes_Cons:
  "source r = v # vs \<Longrightarrow> buffer r = [] \<Longrightarrow> 0 < n \<Longrightarrow> skipBytes n r =
     (if int (length v) \<le> n then skipBytes (n - int (length v)) (r\<lparr>source := vs\<rparr>)
      else Inr (r\<lparr>source := vs, buffer := slice_from v n\<rparr>))"
  by (subst skipBytes.simps) (simp add: read_def)

lemma skipBytes_buffer:
  "buffer r \<noteq> [] \<Longrightarrow> 0 < n \<Longrightarrow> skipBytes n r =
     skipBytes (n - min (int (length (buffer r))) n)
       (r\<lparr>buffer := slice_from (buffer r) (min (int (length (buffer r))) n)\<rparr>)"
  by (subst skipBytes.simps) (simp add: Let_def)

lemma slice_from_nonneg: "0 \<le> n \<Longrightarrow> slice_from xs n = drop (nat n) xs"
  by (simp add: slice_from_def rel_index_def min_def)

lemma slice_nonneg: "0 \<le> n \<Longrightarrow> slice xs 0 n = take (nat n) xs"
  by (simp add: slice_def rel_index_def min_def)

lemma skipBytes_empty_buffer:
  "buffer r = [] \<Longrightarrow>
     (case skipBytes n r of
        Inl e \<Rightarrow> ending r = Errored e \<and> int (length (pending r)) < n
      | Inr r' \<Rightarrow> pending r' = drop (nat n) (pending r) \<and> ending r' = ending r \<and> (reader_ok r \<longrightarrow> reader_ok r'))"
proof (induction "source r" arbitrary: r n)
  case Nil
  show ?case
  proof (cases "0 < n")
    case True
    with Nil show ?thesis
      by (auto simp: skipBytes_Nil pending_def reader_ok_def split: outcome.splits)
  next
    case False
    then show ?thesis by (simp add: skipBytes_nonpos)
  qed
next
  case (Cons v vs)
  show ?case
  proof (cases "0 < n")
    case False
    then show ?thesis by (simp add: skipBytes_nonpos)
  next
    case True
    note s = skipBytes_Cons[OF Cons.hyps(2)[symmetric] Cons.prems True]
    show ?thesis
    proof (cases "int (length v) \<le> n")
      case le: True
      let ?r1 = "r\<lparr>source := vs\<rparr>"
      have p: "pending r = v @ pending ?r1" "ending ?r1 = ending r" "reader_ok r \<longrightarrow> reader_ok ?r1"
        using Cons.hyps(2)[symmetric] Cons.prems by (auto simp: pending_def reader_ok_def)
      have d: "drop (nat n) (v @ pending ?r1) = drop (nat (n - int (length v))) (pending ?r1)"
        using le by (simp add: nat_diff_distrib)
      from Cons.hyps(1)[of ?r1 "n - int (length v)"] Cons.prems le show ?thesis
        unfolding s p(1) d using p(2,3)
        by (auto split: sum.splits)
    next
      case False
      with True Cons.hyps(2)[symmetric] Cons.prems show ?thesis
        unfolding s by (auto simp: pending_def reader_ok_def slice_from_nonneg)
    qed
  qed
qed

lemma skipBytes_spec:
  "(case skipBytes n r of
      Inl e \<Rightarrow> ending r = Errored e \<and> int (length (pending r)) < n
    | Inr r' \<Rightarrow> pending r' = drop (nat n) (pending r) \<and> ending r' = ending r \<and> (reader_ok r \<longrightarrow> reader_ok r'))"
proof (cases "buffer r = [] \<or> n \<le> 0")
  case True
  then show ?thesis
    using skipBytes_empty_buffer[of r n] by (auto simp: skipBytes_nonpos)
next
  case False
  then have b: "buffer r \<noteq> []" and n: "0 < n" by auto
  let ?t = "min (int (length (buffer r))) n"
  let ?r1 = "r\<lparr>buffer := slice_from (buffer r) ?t\<rparr>"
  note s = skipBytes_buffer[OF b n]
  show ?thesis
  proof (cases "n \<le> int (length (buffer r))")
    case True
    then have t: "?t = n" by simp
    show ?thesis unfolding s t using n True
      by (simp add: skipBytes_nonpos pending_def reader_ok_def slice_from_nonneg)
  next
    case False
    then have t: "?t = int (length (buffer r))" by simp
    have e: "buffer ?r1 = []" unfolding t by (simp add: slice_from_nonneg)
    have p: "pending r = buffer r @ pending ?r1" "ending ?r1 = ending r" "reader_ok r \<longrightarrow> reader_ok ?r1"
      unfolding t by (auto simp: pending_def reader_ok_def slice_from_nonneg)
    have d: "drop (nat n) (buffer r @ pending ?r1)
             = drop (nat (n - int (length (buffer r)))) (pending ?r1)"
      using False by (simp add: nat_diff_distrib)
    from skipBytes_empty_buffer[OF e, of "n - int (length (buffer r))"] False show ?thesis
      unfolding s p(1) d using p(2,3) unfolding t
      by (auto split: sum.splits)
  qed
qed

lemma stream_loop_nonpos: "n \<le> 0 \<Longrightarrow> stream_loop C n r c out = Inr (out, r, c)"
  by (subst stream_loop.simps) simp

lemma stream_loop_Nil:
  "source r = [] \<Longrightarrow> 0 < n \<Longrightarrow> stream_loop C n r c out =
     (case ending r of Closed \<Rightarrow> Inr (out, r\<lparr>is_done := True\<rparr>, c) | Errored e \<Rightarrow> Inl e)"
  by (subst stream_loop.simps) (simp add: read_def split: outcome.splits)

lemma stream_loop_Cons:
  "source r = v # vs \<Longrightarrow> 0 < n \<Longrightarrow> stream_loop C n r c out =
     (if int (length v) \<le> n then
        (case write_file C v c of
           None \<Rightarrow> Inl CollaboratorFailure
         | Some c' \<Rightarrow> stream_loop C (n - int (length v)) (r\<lparr>source := vs\<rparr>) c' (out @ [v]))
      else
        (case write_file C (slice v 0 n) c of
           None \<Rightarrow> Inl CollaboratorFailure
         | Some c' \<Rightarrow> Inr (out @ [slice v 0 n], r\<lparr>source := vs, buffer := slice_from v n\<rparr>, c')))"
  by (subst stream_loop.simps) (simp add: read_def)

lemma stream_loop_Inr:
  "buffer r = [] \<Longrightarrow> stream_loop C n r c out = Inr (w, r', c') \<Longrightarrow>
     concat w = concat out @ take (nat n) (pending r)
     \<and> pending r' = drop (nat n) (pending r) \<and> ending r' = ending r
     \<and> (reader_ok r \<longrightarrow> reader_ok r')"
proof (induction "source r" arbitrary: r n c out)
  case Nil
  show ?case
  proof (cases "0 < n")
    case True
    with Nil show ?thesis
      by (auto simp: stream_loop_Nil pending_def reader_ok_def split: outcome.splits)
  next
    case False
    with Nil.prems show ?thesis by (simp add: stream_loop_nonpos)
  qed
next
  case (Cons v vs)
  show ?case
  proof (cases "0 < n")
    case False
    with Cons.prems show ?thesis by (simp add: stream_loop_nonpos)
  next
    case True
    note s = stream_loop_Cons[OF Cons.hyps(2)[symmetric] True, of C c out]
    show ?thesis
    proof (cases "int (length v) \<le> n")
      case le: True
      let ?r1 = "r\<lparr>source := vs\<rparr>"
      from Cons.prems(2) le obtain c1 where
        c1: "stream_loop C (n - int (length v)) ?r1 c1 (out @ [v]) = Inr (w, r', c')"
        unfolding s by (auto split: option.splits)
      have p: "pending r = v @ pending ?r1" "ending ?r1 = ending r" "reader_ok r \<longrightarrow> reader_ok ?r1"
        using Cons.hyps(2)[symmetric] Cons.prems(1) by (auto simp: pending_def reader_ok_def)
      have d: "drop (nat n) (v @ pending ?r1) = drop (nat (n - int (length v))) (pending ?r1)"
              "take (nat n) (v @ pending ?r1) = v @ take (nat (n - int (length v))) (pending ?r1)"
        using le by (simp_all add: nat_diff_distrib)
      from Cons.hyps(1)[of ?r1, OF _ _ c1] Cons.prems(1) show ?thesis
        unfolding p(1) d using p(2,3) by auto
    next
      case False
      with True Cons.hyps(2)[symmetric] Cons.prems show ?thesis
        unfolding s
        by (auto simp: pending_def reader_ok_def slice_from_nonneg slice_nonneg split: option.splits)
    qed
  qed
qed

text \<open>When no write fails, the loop fails only with the error of the stream.\<close>

lemma stream_loop_Inl:
  assumes w: "\<forall>v c. write_file C v c \<noteq> None"
  shows "buffer r = [] \<Longrightarrow> stream_loop C n r c out = Inl e \<Longrightarrow>
     ending r = Errored e \<and> int (length (pending r)) < n"
proof (induction "source r" arbitrary: r n c out)
  case Nil
  show ?case
  proof (cases "0 < n")
    case True
    with Nil show ?thesis
      by (auto simp: stream_loop_Nil pending_def split: outcome.splits)
  next
    case False
    with Nil.prems show ?thesis by (simp add: stream_loop_nonpos)
  qed
next
  case (Cons v vs)
  show ?case
  proof (cases "0 < n")
    case False
    with Cons.prems show ?thesis by (simp add: stream_loop_nonpos)
  next
    case True
    note s = stream_loop_Cons[OF Cons.hyps(2)[symmetric] True, of C c out]
    show ?thesis
    proof (cases "int (length v) \<le> n")
      case le: True
      let ?r1 = "r\<lparr>source := vs\<rparr>"
      from w obtain c1 where w1: "write_file C v c = Some c1" by blast
      with Cons.prems(2) le have
        c1: "stream_loop C (n - int (length v)) ?r1 c1 (out @ [v]) = Inl e"
        unfolding s by simp
      have p: "pending r = v @ pending ?r1" "ending ?r1 = ending r"
        using Cons.hyps(2)[symmetric] Cons.prems(1) by (auto simp: pending_def)
      from Cons.hyps(1)[of ?r1, OF _ _ c1] Cons.prems(1) show ?thesis
        unfolding p(1) using p(2) by auto
    next
      case False
      from w obtain c1 where "write_file C (slice v 0 n) c = Some c1" by blast
      with False Cons.prems(2) show ?thesis unfolding s by simp
    qed
  qed
qed

lemma streamToFile_Inr:
  assumes "0 \<le> n" "streamToFile C n r c = Inr (w, r', c')"
  shows "concat w = take (nat n) (pending r)
          \<and> pending r' = drop (nat n) (pending r) \<and> ending r' = ending r
          \<and> (reader_ok r \<longrightarrow> reader_ok r')"
proof (cases "buffer r = []")
  case True
  from assms(2) obtain c1 where "stream_loop C n r c [] = Inr (w, r', c1)"
    using True by (auto simp: streamToFile_def split: sum.splits option.splits)
  from stream_loop_Inr[OF True this] show ?thesis by simp
next
  case False
  let ?t = "min (int (length (buffer r))) n"
  let ?r1 = "r\<lparr>buffer := slice_from (buffer r) ?t\<rparr>"
  from assms(2) False obtain c0 c1 where
    s: "stream_loop C (n - ?t) ?r1 c0 [slice (buffer r) 0 ?t] = Inr (w, r', c1)"
    by (auto simp: streamToFile_def Let_def split: sum.splits option.splits)
  show ?thesis
  proof (cases "n \<le> int (length (buffer r))")
    case True
    then have t: "?t = n" by simp
    from s show ?thesis unfolding t using assms(1) True
      by (auto simp: stream_loop_nonpos pending_def reader_ok_def slice_from_nonneg slice_nonneg)
  next
    case gt: False
    then have t: "?t = int (length (buffer r))" by simp
    have e: "buffer ?r1 = []" unfolding t by (simp add: slice_from_nonneg)
    have p: "pending r = buffer r @ pending ?r1" "ending ?r1 = ending r"
            "reader_ok r \<longrightarrow> reader_ok ?r1" "slice (buffer r) 0 ?t = buffer r"
      unfolding t by (auto simp: pending_def reader_ok_def slice_from_nonneg slice_nonneg)
    have d: "drop (nat n) (buffer r @ pending ?r1)
               = drop (nat (n - int (length (buffer r)))) (pending ?r1)"
            "take (nat n) (buffer r @ pending ?r1)
               = buffer r @ take (nat (n - int (length (buffer r)))) (pending ?r1)"
      using gt by (simp_all add: nat_diff_distrib)
    from stream_loop_Inr[OF e s[unfolded p(4)]] show ?thesis
      unfolding p(1) d using p(2,3) unfolding t by auto
  qed
qed

lemma streamToFile_negative:
  assumes "n < 0" "streamToFile C n r c = Inr (w, r', c')"
  shows "length (pending r') \<le> length (pending r)"
  using assms
  by (auto simp: streamToFile_def stream_loop_nonpos Let_def pending_def slice_from_def
           split: if_splits option.splits)

lemma streamToFile_shrinks:
  "streamToFile C n r c = Inr (w, r', c') \<Longrightarrow> length (pending r') \<le> length (pending r)"
proof (cases "0 \<le> n")
  case True
  assume "streamToFile C n r c = Inr (w, r', c')"
  from streamToFile_Inr[OF True this] show ?thesis by simp
next
  case False
  assume "streamToFile C n r c = Inr (w, r', c')"
  with streamToFile_negative[of n C r c w r' c'] False show ?thesis by auto
qed

text \<open>
  When no write and no close fails and the octets are at hand, the file receives them.
\<close>

lemma streamToFile_Inl:
  assumes "\<forall>v c. write_file C v c \<noteq> None" "\<forall>c. close_file C c \<noteq> None"
      "0 \<le> n" "streamToFile C n r c = Inl e"
  shows "ending r = Errored e \<and> int (length (pending r)) < n"
proof (cases "buffer r = []")
  case True
  have "stream_loop C n r c [] = Inl e"
  proof (cases "stream_loop C n r c []")
    case (Inl e')
    with assms(4) True show ?thesis by (simp add: streamToFile_def)
  next
    case (Inr q)
    obtain out r1 c1 where "q = (out, r1, c1)" by (cases q)
    moreover from assms(2) obtain c2 where "close_file C c1 = Some c2" by blast
    ultimately show ?thesis using assms(4) True Inr by (simp add: streamToFile_def)
  qed
  from stream_loop_Inl[OF assms(1) True this] show ?thesis .
next
  case False
  let ?t = "min (int (length (buffer r))) n"
  let ?r1 = "r\<lparr>buffer := slice_from (buffer r) ?t\<rparr>"
  from assms(1) obtain c0 where c0: "write_file C (slice (buffer r) 0 ?t) c = Some c0" by blast
  let ?l = "stream_loop C (n - ?t) ?r1 c0 [slice (buffer r) 0 ?t]"
  have l: "?l = Inl e"
  proof (cases ?l)
    case (Inl e')
    with assms(4) False c0 show ?thesis by (simp add: streamToFile_def Let_def)
  next
    case (Inr q)
    obtain out r1 c1 where "q = (out, r1, c1)" by (cases q)
    moreover from assms(2) obtain c2 where "close_file C c1 = Some c2" by blast
    ultimately show ?thesis using assms(4) False Inr c0 by (simp add: streamToFile_def Let_def)
  qed
  show ?thesis
  proof (cases "n \<le> int (length (buffer r))")
    case True
    then have t: "?t = n" by simp
    from l show ?thesis unfolding t by (simp add: stream_loop_nonpos)
  next
    case gt: False
    then have t: "?t = int (length (buffer r))" by simp
    have e: "buffer ?r1 = []" unfolding t by (simp add: slice_from_nonneg)
    have p: "pending r = buffer r @ pending ?r1" "ending ?r1 = ending r"
      unfolding t by (auto simp: pending_def slice_from_nonneg)
    from stream_loop_Inl[OF assms(1) e l] show ?thesis
      unfolding p(1) using p(2) unfolding t by auto
  qed
qed

lemma skipBytes_shrinks:
  "skipBytes n r = Inr r' \<Longrightarrow> length (pending r') \<le> length (pending r)"
  using skipBytes_spec[where n = n and r = r] by simp

lemma readToMemory_shrinks:
  "readToMemory n r = Inr (d, r') \<Longrightarrow> length (pending r') \<le> length (pending r)"
proof -
  assume a: "readToMemory n r = Inr (d, r')"
  then obtain r1 where e: "ensure n r = Inr (True, r1)" and c: "consume n r1 = (d, r')"
    by (auto simp: readToMemory_def split: sum.splits if_splits)
  from c have "length (pending r') \<le> length (pending r1)"
    by (auto simp: consume_def pending_def slice_from_def)
  with ensure_Inr[OF e] show ?thesis by simp
qed

lemma readToMemory_spec:
  assumes "0 \<le> n" "reader_ok r"
  shows "(case readToMemory n r of
        Inl e \<Rightarrow> int (length (pending r)) < n
                 \<and> (case ending r of Closed \<Rightarrow> e = UnexpectedEOF | Errored e' \<Rightarrow> e = e')
      | Inr (d, r') \<Rightarrow> d = take (nat n) (pending r)
          \<and> pending r' = drop (nat n) (pending r) \<and> ending r' = ending r \<and> reader_ok r')"
proof (cases "ensure n r")
  case (Inl e)
  with ensure_Inl[OF Inl] show ?thesis by (simp add: readToMemory_def)
next
  case (Inr p)
  obtain ok r1 where p: "p = (ok, r1)" by (cases p)
  note e = ensure_Inr[OF Inr[unfolded p]]
  show ?thesis
  proof (cases ok)
    case True
    with e assms have "n \<le> int (length (buffer r1))" by simp
    from consume_enough[OF assms(1) this] e assms True Inr p show ?thesis
      by (auto simp: readToMemory_def split: prod.splits)
  next
    case False
    with e assms Inr p show ?thesis by (simp add: readToMemory_def)
  qed
qed

section \<open>The platform\<close>

text \<open>
  What the browser provides is a parameter of the model: PBKDF2 (600000 rounds of
  SHA-256, giving an AES-GCM key of 256 bits), AES-GCM encryption and decryption (\<open>None\<close>
  when the authentication tag does not verify), the random source, and the gzip
  decompressor as a transform stream (its state, its \<open>transform\<close> and its \<open>flush\<close>).
  \<open>random P k i\<close> is octet \<open>i\<close> of the \<open>k\<close>-th array that \<open>crypto.getRandomValues\<close> fills.
\<close>

record ('k, 's) platform =
  pbkdf2 :: "bytes \<Rightarrow> bytes \<Rightarrow> 'k"
  encrypt :: "'k \<Rightarrow> bytes \<Rightarrow> bytes \<Rightarrow> bytes"
  decrypt :: "'k \<Rightarrow> bytes \<Rightarrow> bytes \<Rightarrow> bytes option"
  random :: "nat \<Rightarrow> nat \<Rightarrow> byte"
  inflate_start :: 's
  inflate_transform :: "'s \<Rightarrow> bytes \<Rightarrow> error + (bytes list \<times> 's)"
  inflate_flush :: "'s \<Rightarrow> error + bytes list"

definition deriveKey :: "('k, 's) platform \<Rightarrow> jsstring \<Rightarrow> bytes \<Rightarrow> 'k" where
  "deriveKey P password salt = pbkdf2 P (ENC password) salt"

definition getRandomValues :: "('k, 's) platform \<Rightarrow> nat \<Rightarrow> nat \<Rightarrow> bytes" where
  "getRandomValues P k n = map (random P k) [0 ..< n]"

section \<open>The chunked cipher writer\<close>

definition CHUNK_SIZE :: nat where
  "CHUNK_SIZE = 4 * 1024 * 1024"

text \<open>\<open>DataView.setUint32(0, v, true)\<close> and \<open>getUint32(0, true)\<close>: four octets, low one first.\<close>

definition setUint32 :: "nat \<Rightarrow> bytes" where
  "setUint32 v =
     [of_nat (v mod 256), of_nat (v div 256 mod 256), of_nat (v div 65536 mod 256),
      of_nat (v div 16777216 mod 256)]"

definition getUint32 :: "bytes \<Rightarrow> nat option" where
  "getUint32 bs =
     (case bs of
        [b0, b1, b2, b3] \<Rightarrow> Some (unat b0 + 256 * unat b1 + 65536 * unat b2 + 16777216 * unat b3)
      | _ \<Rightarrow> None)"

text \<open>
  \<open>EncryptionTransformer\<close>: its fields, and \<open>calls\<close>, the number of nonces drawn so far.
  Each method returns the chunks it enqueues, in order.
\<close>

record 'k EncryptionTransformer =
  salt :: bytes
  residual :: bytes
  keyPromise :: 'k
  calls :: nat

definition EncryptionTransformer_new ::
    "('k, 's) platform \<Rightarrow> jsstring \<Rightarrow> bytes \<Rightarrow> 'k EncryptionTransformer" where
  "EncryptionTransformer_new P password s =
     \<lparr>salt = s, residual = [], keyPromise = deriveKey P password s, calls = 0\<rparr>"

definition encryptAndPush ::
    "('k, 's) platform \<Rightarrow> 'k EncryptionTransformer \<Rightarrow> bytes \<Rightarrow> 'k
       \<Rightarrow> bytes list \<times> 'k EncryptionTransformer" where
  "encryptAndPush P t d key =
     (let iv = getRandomValues P (calls t) 12;
          ciphertext = encrypt P key iv d;
          lenParams = setUint32 (length ciphertext)
      in ([iv, lenParams, ciphertext], t\<lparr>calls := calls t + 1\<rparr>))"

definition start ::
    "('k, 's) platform \<Rightarrow> 'k EncryptionTransformer \<Rightarrow> bytes list \<times> 'k EncryptionTransformer" where
  "start P t =
     (let (out, t') = encryptAndPush P t [] (keyPromise t)
      in ([ENC (str ''LE_ENC''), salt t] @ out, t'))"

function transform_loop ::
    "('k, 's) platform \<Rightarrow> 'k \<Rightarrow> 'k EncryptionTransformer \<Rightarrow> bytes list
       \<Rightarrow> bytes list \<times> 'k EncryptionTransformer" where
  "transform_loop P key t out =
     (if length (residual t) \<ge> CHUNK_SIZE then
        (let slice' = slice (residual t) 0 (int CHUNK_SIZE);
             t1 = t\<lparr>residual := slice_from (residual t) (int CHUNK_SIZE)\<rparr>;
             (pushed, t2) = encryptAndPush P t1 slice' key
         in transform_loop P key t2 (out @ pushed))
      else (out, t))"
  by pat_completeness auto
termination
  by (relation "measure (\<lambda>(P, key, t, out). length (residual t))")
     (auto simp: encryptAndPush_def Let_def CHUNK_SIZE_def slice_from_def rel_index_def)

declare transform_loop.simps [simp del]

definition transform ::
    "('k, 's) platform \<Rightarrow> 'k EncryptionTransformer \<Rightarrow> bytes
       \<Rightarrow> bytes list \<times> 'k EncryptionTransformer" where
  "transform P t chunk =
     (let key = keyPromise t;
          combined = residual t @ chunk
      in transform_loop P key (t\<lparr>residual := combined\<rparr>) [])"

definition flush ::
    "('k, 's) platform \<Rightarrow> 'k EncryptionTransformer \<Rightarrow> bytes list \<times> 'k EncryptionTransformer" where
  "flush P t =
     (if length (residual t) > 0 then encryptAndPush P t (residual t) (keyPromise t)
      else ([], t))"

text \<open>
  The transform stream around the transformer: \<open>start\<close>, then \<open>transform\<close> for every chunk
  written, then \<open>flush\<close> when the writable side is closed.
\<close>

fun transform_all ::
    "('k, 's) platform \<Rightarrow> 'k EncryptionTransformer \<Rightarrow> bytes list
       \<Rightarrow> bytes list \<times> 'k EncryptionTransformer" where
  "transform_all P t [] = ([], t)"
| "transform_all P t (c # cs) =
     (let (out, t1) = transform P t c;
          (outs, t2) = transform_all P t1 cs
      in (out @ outs, t2))"

definition encryptStream ::
    "('k, 's) platform \<Rightarrow> jsstring \<Rightarrow> bytes \<Rightarrow> bytes list \<Rightarrow> bytes list" where
  "encryptStream P password s chunks =
     (let t0 = EncryptionTransformer_new P password s;
          (o0, t1) = start P t0;
          (o1, t2) = transform_all P t1 chunks;
          (o2, t3) = flush P t2
      in o0 @ o1 @ o2)"

section \<open>The chunked cipher reader\<close>

text \<open>
  The loop of \<open>DecryptionSource.readable\<close>; \<open>out\<close> is what has been enqueued so far. The
  result is the stream the reader produces: the chunks enqueued, then closed or errored.
\<close>

function decrypt_loop ::
    "('k, 's) platform \<Rightarrow> 'k \<Rightarrow> reader \<Rightarrow> bytes list \<Rightarrow> stream" where
  "decrypt_loop P key r out =
     (case ensure 16 r of
        Inl e \<Rightarrow> (out, Errored e)
      | Inr (ok, r1) \<Rightarrow>
          if \<not> ok then (out, Closed)
          else
            (let (iv, r2) = consume 12 r1;
                 (lenBytes, r3) = consume 4 r2
             in case getUint32 lenBytes of
                  None \<Rightarrow> (out, Errored RangeError)
                | Some lenVal \<Rightarrow>
                    (case ensure (int lenVal) r3 of
                       Inl e \<Rightarrow> (out, Errored e)
                     | Inr (ok', r4) \<Rightarrow>
                         if \<not> ok' then (out, Errored CorruptChunk)
                         else
                           (let (cipher, r5) = consume (int lenVal) r4
                            in case decrypt P key iv cipher of
                                 None \<Rightarrow> (out, Errored IncorrectPassword)
                               | Some plain \<Rightarrow> decrypt_loop P key r5 (out @ [plain])))))"
  by pat_completeness auto
termination
proof (relation "measure (\<lambda>(P, key, r, out). length (pending r))", goal_cases)
  case 1
  show ?case by simp
next
  case (2 P key r out p ok r1 civ iv r2 clen lenBytes r3 lenVal q ok' r4 cc cipher r5 plain)
  from 2(1,2) have e1: "ensure 16 r = Inr (True, r1)" using 2(3) by simp
  have a: "pending r1 = pending r" "16 \<le> int (length (buffer r1))"
    using ensure_Inr[OF e1] by simp_all
  have r2: "r2 = snd (consume 12 r1)" using 2(4,5) by (metis snd_conv)
  have b: "pending r2 = drop 12 (pending r1)" "buffer r2 = drop 12 (buffer r1)"
    using a(2) consume_enough(2)[of 12 r1] unfolding r2
    by (simp_all add: consume_def slice_from_nonneg)
  have r3: "r3 = snd (consume 4 r2)" using 2(6,7) by (metis snd_conv)
  have c: "pending r3 = drop 4 (pending r2)"
    using a(2) b(2) consume_enough(2)[of 4 r2] unfolding r3 by simp
  from 2(9,10) have e2: "ensure (int lenVal) r3 = Inr (ok', r4)" by simp
  have d: "pending r4 = pending r3" using ensure_Inr[OF e2] by simp
  have r5: "r5 = snd (consume (int lenVal) r4)" using 2(12,13) by (metis snd_conv)
  have "length (pending r5) \<le> length (pending r4)"
    unfolding r5 by (simp add: consume_def pending_def slice_from_def)
  moreover have "length (buffer r1) \<le> length (pending r1)"
    by (simp add: pending_def)
  then have "16 \<le> length (pending r)"
    using a by simp
  ultimately show ?case
    unfolding d c b(1) a(1) by simp
qed

declare decrypt_loop.simps [simp del]

definition DecryptionSource_readable ::
    "('k, 's) platform \<Rightarrow> stream \<Rightarrow> jsstring \<Rightarrow> stream" where
  "DecryptionSource_readable P s password =
     (case ensure 22 (reader_new s) of
        Inl e \<Rightarrow> ([], Errored e)
      | Inr (ok, r1) \<Rightarrow>
          if \<not> ok then ([], Errored FileTooSmall)
          else
            (let (sigBytes, r2) = consume 6 r1;
                 sig = DEC sigBytes
             in if sig \<noteq> str ''LE_ENC'' then ([], Errored NotEncrypted)
                else
                  (let (salt, r3) = consume 16 r2;
                       key = deriveKey P password salt
                   in decrypt_loop P key r3 [])))"

section \<open>The import pipeline\<close>

text \<open>
  \<open>pipeThrough(new DecompressionStream("gzip"))\<close>: every chunk of the source goes through
  the decompressor's \<open>transform\<close>; when the source closes, \<open>flush\<close> runs; when the source
  errors, the result errors with the same error.
\<close>

fun inflate_all ::
    "('k, 's) platform \<Rightarrow> 's \<Rightarrow> bytes list \<Rightarrow> bytes list \<times> (error + 's)" where
  "inflate_all P st [] = ([], Inr st)"
| "inflate_all P st (c # cs) =
     (case inflate_transform P st c of
        Inl e \<Rightarrow> ([], Inl e)
      | Inr (out, st') \<Rightarrow> (let (outs, res) = inflate_all P st' cs in (out @ outs, res)))"

definition decompress :: "('k, 's) platform \<Rightarrow> stream \<Rightarrow> stream" where
  "decompress P s =
     (case inflate_all P (inflate_start P) (fst s) of
        (out, Inl e) \<Rightarrow> (out, Errored e)
      | (out, Inr st) \<Rightarrow>
          (case snd s of
             Errored e \<Rightarrow> (out, Errored e)
           | Closed \<Rightarrow>
               (case inflate_flush P st of
                  Inl e \<Rightarrow> (out, Errored e)
                | Inr final \<Rightarrow> (out @ final, Closed))))"

text \<open>An entry as the parse loop decodes it, and the way the loop ends.\<close>

type_synonym entry = "jsstring \<times> int \<times> bytes"

datatype result = Complete | Failed error

lemma header_consumed:
  assumes "ensure 512 r = Inr b" "(ok, r1) = b" "\<not> \<not> ok" "c = consume 512 r1" "(header, r2) = c"
  shows "length (pending r2) < length (pending r)"
proof -
  from assms have e: "ensure 512 r = Inr (True, r1)" by auto
  have a: "pending r1 = pending r" "512 \<le> int (length (buffer r1))"
    using ensure_Inr[OF e] by simp_all
  have "r2 = snd (consume 512 r1)" using assms(4,5) by (metis snd_conv)
  then have "pending r2 = drop 512 (pending r1)"
    using a(2) consume_enough(2)[of 512 r1] by simp
  moreover have "length (buffer r1) \<le> length (pending r1)"
    by (simp add: pending_def)
  ultimately show ?thesis using a by simp
qed

text \<open>
  The two header fields the loop decodes: the name (with the prefix field joined in front
  when it is not empty) and the size, \<open>None\<close> when \<open>parseInt\<close> gives \<open>NaN\<close>.
\<close>

definition header_name :: "bytes \<Rightarrow> jsstring" where
  "header_name header =
     (let name = replace_nul (DEC (slice header 0 100));
          prefix = replace_nul (DEC (slice header 345 500))
      in if prefix \<noteq> [] then prefix @ str ''/'' @ name else name)"

definition header_size :: "bytes \<Rightarrow> int option" where
  "header_size header = parseInt8 (trim (DEC (slice header 124 136)))"

text \<open>
  \<open>s.replace(t, "")\<close> for a string \<open>t\<close>: the first occurrence of \<open>t\<close> in \<open>s\<close> is removed.
\<close>

fun remove_first :: "jsstring \<Rightarrow> jsstring \<Rightarrow> jsstring" where
  "remove_first t [] = []"
| "remove_first t (x # xs) =
     (if startsWith (x # xs) t then drop (length t) (x # xs) else x # remove_first t xs)"

text \<open>
  What the loop does with an entry under \<open>data/\<close> once its octets are in memory: the chain
  of \<open>if\<close>s over the name. A name that no branch takes is dropped.
\<close>

definition restore_system :: "'c collaborators \<Rightarrow> jsstring \<Rightarrow> bytes \<Rightarrow> 'c \<Rightarrow> 'c option" where
  "restore_system C name d c =
     (if name = str ''data/ls.json'' then assign_localStorage C (DEC d) c
      else if name = str ''data/ss.json'' then set_sessionStorage C (DEC d) c
      else if name = str ''data/cookies.json'' then set_cookies C (DEC d) c
      else
        (case (if startsWith name (str ''data/custom/'') then onCustomItem C else None) of
           Some item \<Rightarrow> item (remove_first (str ''data/custom/'') name) d c
         | None \<Rightarrow>
             (case (if startsWith name (str ''data/idb/'') then restore_idb C else None) of
                Some restore \<Rightarrow> restore name d c
              | None \<Rightarrow> Some c)))"

text \<open>The path of a file below the root of the file tree.\<close>

definition cleanName :: "jsstring \<Rightarrow> jsstring" where
  "cleanName name =
     (if startsWith name (str ''opfs/'') then remove_first (str ''opfs/'') name else name)"

text \<open>
  The parse loop of \<open>importData\<close>. \<open>opfs\<close> is \<open>opts.opfs !== false\<close>, and \<open>c\<close> is the state of
  the collaborators. An exception out of a collaborator ends the loop, as any other
  exception does. Beside the way it ends, the loop's result is the entries it handed
  over without an exception, in order: the decoded name, the decoded size, and the
  payload that \<open>readToMemory\<close> returned or \<open>streamToFile\<close> wrote.
\<close>

function tar_loop ::
    "'c collaborators \<Rightarrow> bool \<Rightarrow> reader \<Rightarrow> 'c \<Rightarrow> entry list \<Rightarrow> entry list \<times> result" where
  "tar_loop C opfs r c acc =
     (case ensure 512 r of
        Inl e \<Rightarrow> (acc, Failed e)
      | Inr (ok, r1) \<Rightarrow>
          if \<not> ok then (acc, Complete)
          else
            (let (header, r2) = consume 512 r1
             in if list_all (\<lambda>b. b = 0) header then (acc, Complete)
                else
                  (let name = header_name header
                   in case header_size header of
                        None \<Rightarrow> (acc, Complete)
                      | Some sz \<Rightarrow>
                          (let padding = js_rem (512 - js_rem sz 512) 512
                           in if sz = 0 then
                                (case skipBytes padding r2 of
                                   Inl e \<Rightarrow> (acc, Failed e)
                                 | Inr r3 \<Rightarrow> tar_loop C opfs r3 c acc)
                              else if startsWith name (str ''data/'') then
                                (case readToMemory sz r2 of
                                   Inl e \<Rightarrow> (acc, Failed e)
                                 | Inr (d, r3) \<Rightarrow>
                                     (case restore_system C name d c of
                                        None \<Rightarrow> (acc, Failed CollaboratorFailure)
                                      | Some c1 \<Rightarrow>
                                          (case skipBytes padding r3 of
                                             Inl e \<Rightarrow> (acc @ [(name, sz, d)], Failed e)
                                           | Inr r4 \<Rightarrow>
                                               tar_loop C opfs r4 c1 (acc @ [(name, sz, d)]))))
                              else if opfs then
                                (case open_file C (cleanName name) c of
                                   None \<Rightarrow> (acc, Failed CollaboratorFailure)
                                 | Some c1 \<Rightarrow>
                                     (case streamToFile C sz r2 c1 of
                                        Inl e \<Rightarrow> (acc, Failed e)
                                      | Inr (w, r3, c2) \<Rightarrow>
                                          (case skipBytes padding r3 of
                                             Inl e \<Rightarrow> (acc @ [(name, sz, concat w)], Failed e)
                                           | Inr r4 \<Rightarrow>
                                               tar_loop C opfs r4 c2
                                                 (acc @ [(name, sz, concat w)]))))
                              else
                                (case skipBytes sz r2 of
                                   Inl e \<Rightarrow> (acc, Failed e)
                                 | Inr r3 \<Rightarrow>
                                     (case skipBytes padding r3 of
                                        Inl e \<Rightarrow> (acc, Failed e)
                                      | Inr r4 \<Rightarrow> tar_loop C opfs r4 c acc))))))"
  by pat_completeness auto
termination
proof (relation "measure (\<lambda>(C, opfs, r, c, acc). length (pending r))", goal_cases)
  case 1
  show ?case by simp
next
  case (2 C opfs r c acc b ok r1 p header r2 name sz padding r3)
  from header_consumed[OF 2(1-5)] skipBytes_shrinks[OF 2(11)] show ?case by simp
next
  case (3 C opfs r c acc b ok r1 p header r2 name sz padding m d r3 c1 r4)
  from 3(12,13) have "readToMemory sz r2 = Inr (d, r3)" by simp
  from header_consumed[OF 3(1-5)] readToMemory_shrinks[OF this] skipBytes_shrinks[OF 3(15)]
  show ?case by simp
next
  case (4 C opfs r c acc b ok r1 p header r2 name sz padding c1 m w q r3 c2 r4)
  from 4(14,15,16) have "streamToFile C sz r2 c1 = Inr (w, r3, c2)" by simp
  from header_consumed[OF 4(1-5)] streamToFile_shrinks[OF this] skipBytes_shrinks[OF 4(17)]
  show ?case by simp
next
  case (5 C opfs r c acc b ok r1 p header r2 name sz padding r3 r4)
  from header_consumed[OF 5(1-5)] skipBytes_shrinks[OF 5(13)] skipBytes_shrinks[OF 5(14)]
  show ?case by simp
qed

declare tar_loop.simps [simp del]

text \<open>
  \<open>importData\<close>: \<open>file\<close> is the chunks that \<open>file.stream()\<close> delivers, the file's content
  their concatenation; \<open>answer\<close> is what \<open>prompt\<close> returns.
\<close>

definition nth_opt :: "'a list \<Rightarrow> nat \<Rightarrow> 'a option" where
  "nth_opt xs i = (if i < length xs then Some (xs ! i) else None)"

definition importData ::
    "('k, 's) platform \<Rightarrow> 'c collaborators \<Rightarrow> bytes list \<Rightarrow> jsstring option \<Rightarrow> bool \<Rightarrow> 'c
       \<Rightarrow> entry list \<times> result" where
  "importData P C file answer opfs c =
     (let probe = slice (concat file) 0 8;
          sig = DEC (slice probe 0 6)
      in if sig = str ''LE_ENC'' then
           (case answer of
              None \<Rightarrow> ([], Failed PasswordRequired)
            | Some password \<Rightarrow>
                if password = [] then ([], Failed PasswordRequired)
                else
                  tar_loop C opfs
                    (reader_new (decompress P (DecryptionSource_readable P (file, Closed) password)))
                    c [])
         else if nth_opt probe 0 = Some 0x1f \<and> nth_opt probe 1 = Some 0x8b then
           tar_loop C opfs (reader_new (decompress P (file, Closed))) c []
         else tar_loop C opfs (reader_new (file, Closed)) c [])"

section \<open>The layout of the encrypted stream\<close>

text \<open>
  The octets of a sequence of chunks as \<open>encryptAndPush\<close> emits them: for each plaintext
  piece the nonce, the length of the ciphertext in four octets, and the ciphertext. The
  \<open>k\<close>-th nonce is the \<open>k\<close>-th draw from the random source.
\<close>

fun frames :: "('k, 's) platform \<Rightarrow> 'k \<Rightarrow> nat \<Rightarrow> bytes list \<Rightarrow> bytes" where
  "frames P key k [] = []"
| "frames P key k (d # ds) =
     (let iv = getRandomValues P k 12; c = encrypt P key iv d
      in iv @ setUint32 (length c) @ c) @ frames P key (Suc k) ds"

section \<open>A small platform for the examples\<close>

text \<open>
  The closed examples need a platform that can be evaluated: the key is the password
  followed by the salt, the ciphertext is the plaintext followed by a 16-octet tag cut from
  the key, and the decompressor passes its input through.
\<close>

definition toy_tag :: "bytes \<Rightarrow> bytes" where
  "toy_tag k = take 16 (k @ replicate 16 0)"

definition toy :: "(bytes, unit) platform" where
  "toy = \<lparr>pbkdf2 = (\<lambda>pw s. pw @ s),
          encrypt = (\<lambda>k iv d. d @ toy_tag k),
          decrypt = (\<lambda>k iv c. if 16 \<le> length c \<and> drop (length c - 16) c = toy_tag k
                               then Some (take (length c - 16) c) else None),
          random = (\<lambda>k i. of_nat (k + i)),
          inflate_start = (),
          inflate_transform = (\<lambda>st c. Inr ([c], st)),
          inflate_flush = (\<lambda>st. Inr [])\<rparr>"

text \<open>Collaborators without state that accept every call; no hook is installed.\<close>

definition accepting :: "unit collaborators" where
  "accepting = \<lparr>assign_localStorage = (\<lambda>t c. Some c),
                set_sessionStorage = (\<lambda>t c. Some c),
                set_cookies = (\<lambda>t c. Some c),
                onCustomItem = None,
                restore_idb = None,
                open_file = (\<lambda>n c. Some c),
                write_file = (\<lambda>v c. Some c),
                close_file = (\<lambda>c. Some c)\<rparr>"

section \<open>Notions used in the statements\<close>

text \<open>
  A string of ASCII characters is encoded one octet per character. The source never reads
  the checksum back; \<open>checksum_field\<close> decodes it the way the reader decodes the size field,
  and \<open>blank_checksum\<close> fills the field with spaces, as it was when the sum was taken.
\<close>

definition ascii :: "jsstring \<Rightarrow> bool" where
  "ascii s = list_all (\<lambda>c. c < 0x80) s"

text \<open>An octal field: \<open>k\<close> digits when the number has at most \<open>k\<close> of them.\<close>

definition octal_text :: "nat \<Rightarrow> nat \<Rightarrow> jsstring" where
  "octal_text n k = padStart (toString8 n) k 0x30"

definition checksum_field :: "bytes \<Rightarrow> int option" where
  "checksum_field header = parseInt8 (trim (DEC (slice header 148 156)))"

definition blank_checksum :: "bytes \<Rightarrow> bytes" where
  "blank_checksum header = take 148 header @ replicate 8 0x20 @ drop 156 header"

definition octet_sum :: "bytes \<Rightarrow> nat" where
  "octet_sum header = sum_list (map unat header)"

text \<open>Text of ASCII characters other than NUL, and a long path for the examples.\<close>

definition plain_text :: "jsstring \<Rightarrow> bool" where
  "plain_text s = list_all (\<lambda>c. 0 < c \<and> c < 0x80) s"

definition sample_long_path :: jsstring where
  "sample_long_path = replicate 60 0x61 @ [0x2F] @ replicate 50 0x62"

text \<open>A header whose size field is not a number, for the examples.\<close>

definition sample_bad_header :: bytes where
  "sample_bad_header = replicate 124 0x41 @ [0x7A] @ replicate 387 0"

text \<open>
  The octets of an entry's data; the paths the header can hold (at most 100 characters, or
  longer with a \<open>/\<close> where the writer splits: see \<open>long_name_split\<close>); the octets one
  \<open>writeEntry\<close> adds to the archive; and the entries the parse loop hands over for an
  archive: those with a payload that is not empty, under \<open>data/\<close> or, when the file tree is
  enabled, under any path.
\<close>

definition data_bytes :: "data \<Rightarrow> bytes" where
  "data_bytes d = (case d of Text s \<Rightarrow> ENC s | Binary b \<Rightarrow> b)"

definition storable :: "jsstring \<Rightarrow> bool" where
  "storable path =
     (plain_text path
      \<and> (length path \<le> 100
         \<or> (lastIndexOf path 0x2F 154 \<noteq> - 1
            \<and> int (length path) - 100 \<le> lastIndexOf path 0x2F 154)
         \<or> (length path = 255 \<and> path ! 155 = 0x2F)))"

definition entry_bytes :: "jsstring \<times> data \<times> nat \<Rightarrow> bytes" where
  "entry_bytes e =
     (case e of (path, d, now) \<Rightarrow>
        createTarHeader path (length (data_bytes d)) False now @ data_bytes d
        @ replicate ((512 - length (data_bytes d) mod 512) mod 512) 0)"

definition delivered :: "bool \<Rightarrow> (jsstring \<times> data \<times> nat) list \<Rightarrow> entry list" where
  "delivered opfs es =
     map (\<lambda>(path, d, now). (path, int (length (data_bytes d)), data_bytes d))
       (filter (\<lambda>(path, d, now). data_bytes d \<noteq> [] \<and> (startsWith path (str ''data/'') \<or> opfs)) es)"

text \<open>
  The format of a source as the specification words it: the signature in the first six
  octets, else the gzip magic in the first two, else plain.
\<close>

datatype format = Encrypted | Compressed | Plain

definition sniffed :: "bytes \<Rightarrow> format" where
  "sniffed bs =
     (if take 6 bs = ENC (str ''LE_ENC'') then Encrypted
      else if take 2 bs = [0x1f, 0x8b] then Compressed
      else Plain)"

text \<open>
  The collaborators accept an entry when the calls the parse loop makes for it raise no
  exception, whatever state they are made in: for an entry under \<open>data/\<close> the branch
  taken by its name; for a file, when the file tree is enabled, opening its path, every
  write and the close. An entry with an empty payload causes no call.
\<close>

definition accepts :: "'c collaborators \<Rightarrow> bool \<Rightarrow> jsstring \<times> data \<times> nat \<Rightarrow> bool" where
  "accepts C opfs e =
     (case e of (path, d, now) \<Rightarrow>
        data_bytes d = []
        \<or> (if startsWith path (str ''data/'')
           then \<forall>c. restore_system C path (data_bytes d) c \<noteq> None
           else opfs \<longrightarrow>
                  (\<forall>c. open_file C (cleanName path) c \<noteq> None)
                  \<and> (\<forall>v c. write_file C v c \<noteq> None)
                  \<and> (\<forall>c. close_file C c \<noteq> None)))"

section \<open>The include/exclude filter\<close>

text \<open>
  \<open>config.exclude\<close> and \<open>config.include\<close> may be absent (\<open>?.\<close>), and so may the entry
  of a category; an entry is an array of strings.
\<close>

record config =
  exclude :: "(jsstring \<rightharpoonup> jsstring list) option"
  include' :: "(jsstring \<rightharpoonup> jsstring list) option"

text \<open>The arrow function \<open>(t) => path === t || path.startsWith(t + "/")\<close>.\<close>

definition matches :: "jsstring \<Rightarrow> jsstring \<Rightarrow> bool" where
  "matches path t = (path = t \<or> startsWith path (t @ str ''/''))"

definition isAllowed :: "jsstring \<Rightarrow> jsstring \<Rightarrow> config \<Rightarrow> bool" where
  "isAllowed category path config =
     (if (case exclude config of
            None \<Rightarrow> False
          | Some ex \<Rightarrow> (case ex category of None \<Rightarrow> False | Some ts \<Rightarrow> list_ex (matches path) ts))
      then False
      else (case include' config of
              None \<Rightarrow> True
            | Some inc \<Rightarrow>
                (case inc category of
                   None \<Rightarrow> True
                 | Some ts \<Rightarrow> if length ts > 0 then list_ex (matches path) ts else True)))"

section \<open>Properties of the filter\<close>

text \<open>
  C10. A path that equals an exclude entry of its category, or lies under one (the entry
  followed by \<open>/\<close>), is rejected whatever the include list says. With a non-empty include
  list a path matching none of its entries is rejected. With an empty or absent include
  list every path that no exclude entry matches is allowed.
\<close>

theorem isAllowed_exclude_precedence:
  "(\<forall>ex ts t. exclude config = Some ex \<and> ex category = Some ts \<and> t \<in> set ts
        \<and> (path = t \<or> startsWith path (t @ str ''/''))
      \<longrightarrow> \<not> isAllowed category path config)
   \<and> (\<forall>inc ts. include' config = Some inc \<and> inc category = Some ts \<and> ts \<noteq> []
        \<and> (\<forall>t \<in> set ts. \<not> (path = t \<or> startsWith path (t @ str ''/'')))
      \<longrightarrow> \<not> isAllowed category path config)
   \<and> ((\<forall>ex ts. exclude config = Some ex \<and> ex category = Some ts
          \<longrightarrow> (\<forall>t \<in> set ts. \<not> (path = t \<or> startsWith path (t @ str ''/''))))
        \<and> (\<forall>inc ts. include' config = Some inc \<and> inc category = Some ts \<longrightarrow> ts = [])
      \<longrightarrow> isAllowed category path config)"
  by (auto simp: isAllowed_def matches_def list_ex_iff split: option.splits)

theorem isAllowed_exclude_precedence_witness:
  "\<not> isAllowed (str ''opfs'') (str ''Saves/a.txt'')
       \<lparr>exclude = Some [str ''opfs'' \<mapsto> [str ''Saves'']],
        include' = Some [str ''opfs'' \<mapsto> [str ''Saves'']]\<rparr>
   \<and> \<not> isAllowed (str ''opfs'') (str ''Logs/a.txt'')
       \<lparr>exclude = None, include' = Some [str ''opfs'' \<mapsto> [str ''Saves'']]\<rparr>
   \<and> isAllowed (str ''opfs'') (str ''Logs/a.txt'')
       \<lparr>exclude = Some [str ''opfs'' \<mapsto> [str ''Saves'']], include' = Some Map.empty\<rparr>"
proof (intro conjI)
  let ?c1 = "\<lparr>exclude = Some [str ''opfs'' \<mapsto> [str ''Saves'']],
              include' = Some [str ''opfs'' \<mapsto> [str ''Saves'']]\<rparr>"
  have "startsWith (str ''Saves/a.txt'') (str ''Saves'' @ str ''/'')"
    by (simp add: startsWith_def str_def)
  then show "\<not> isAllowed (str ''opfs'') (str ''Saves/a.txt'') ?c1"
    using isAllowed_exclude_precedence [of ?c1 "str ''opfs''" "str ''Saves/a.txt''"]
    by simp
next
  let ?c2 = "\<lparr>exclude = None, include' = Some [str ''opfs'' \<mapsto> [str ''Saves'']]\<rparr>"
  have "\<not> (str ''Logs/a.txt'' = str ''Saves''
          \<or> startsWith (str ''Logs/a.txt'') (str ''Saves'' @ str ''/''))"
    by (simp add: startsWith_def str_def)
  then show "\<not> isAllowed (str ''opfs'') (str ''Logs/a.txt'') ?c2"
    using isAllowed_exclude_precedence [of ?c2 "str ''opfs''" "str ''Logs/a.txt''"]
    by simp
next
  let ?c3 = "\<lparr>exclude = Some [str ''opfs'' \<mapsto> [str ''Saves'']], include' = Some Map.empty\<rparr>"
  have "\<not> (str ''Logs/a.txt'' = str ''Saves''
          \<or> startsWith (str ''Logs/a.txt'') (str ''Saves'' @ str ''/''))"
    by (simp add: startsWith_def str_def)
  then show "isAllowed (str ''opfs'') (str ''Logs/a.txt'') ?c3"
    using isAllowed_exclude_precedence [of ?c3 "str ''opfs''" "str ''Logs/a.txt''"]
    by simp
qed

section \<open>The chunked cipher: writer and reader\<close>

lemma frames_append:
  "frames P key k (xs @ ys) = frames P key k xs @ frames P key (k + length xs) ys"
  by (induction xs arbitrary: k) (simp_all add: Let_def)

lemma concat_encryptAndPush:
  "concat (fst (encryptAndPush P t d key)) = frames P key (calls t) [d]"
  "calls (snd (encryptAndPush P t d key)) = Suc (calls t)"
  "residual (snd (encryptAndPush P t d key)) = residual t"
  "keyPromise (snd (encryptAndPush P t d key)) = keyPromise t"
  "salt (snd (encryptAndPush P t d key)) = salt t"
  by (simp_all add: encryptAndPush_def Let_def)

lemma slice_take: "slice xs 0 (int n) = take n xs"
  by (simp add: slice_def rel_index_def min_def)

lemma slice_from_drop: "slice_from xs (int n) = drop n xs"
  by (simp add: slice_from_def rel_index_def min_def)

lemma transform_loop_frames:
  "transform_loop P key t out = (out', t') \<Longrightarrow>
     \<exists>ds. concat out' = concat out @ frames P key (calls t) ds
        \<and> residual t = concat ds @ residual t'
        \<and> calls t' = calls t + length ds
        \<and> list_all (\<lambda>d. length d = CHUNK_SIZE) ds
        \<and> length (residual t') < CHUNK_SIZE
        \<and> keyPromise t' = keyPromise t \<and> salt t' = salt t"
proof (induction P key t out rule: transform_loop.induct)
  case (1 P key t out)
  show ?case
  proof (cases "CHUNK_SIZE \<le> length (residual t)")
    case False
    with "1.prems" have "out' = out" "t' = t"
      by (simp_all add: transform_loop.simps[of P key t out])
    with False show ?thesis by (intro exI[of _ "[]"]) simp
  next
    case True
    let ?d = "take CHUNK_SIZE (residual t)"
    let ?t1 = "t\<lparr>residual := drop CHUNK_SIZE (residual t)\<rparr>"
    let ?p = "encryptAndPush P ?t1 ?d key"
    have step: "transform_loop P key (snd ?p) (out @ fst ?p) = (out', t')"
      using "1.prems" True
      by (simp add: transform_loop.simps[of P key t out] Let_def slice_take slice_from_drop
               split: prod.splits)
    from "1.IH"[OF True refl refl refl prod.collapse, unfolded slice_take slice_from_drop,
                OF step]
    obtain ds where ds: "concat out' = concat (out @ fst ?p) @ frames P key (calls (snd ?p)) ds"
        "residual (snd ?p) = concat ds @ residual t'" "calls t' = calls (snd ?p) + length ds"
        "list_all (\<lambda>d. length d = CHUNK_SIZE) ds" "length (residual t') < CHUNK_SIZE"
        "keyPromise t' = keyPromise (snd ?p)" "salt t' = salt (snd ?p)"
      by (auto simp: slice_take slice_from_drop)
    have "residual t = ?d @ drop CHUNK_SIZE (residual t)" by simp
    with ds True show ?thesis
      by (intro exI[of _ "?d # ds"]) (simp add: concat_encryptAndPush Let_def)
  qed
qed


lemma transform_frames:
  assumes "transform P t c = (out, t')" "length (residual t) < CHUNK_SIZE"
  shows "\<exists>ds. concat out = frames P (keyPromise t) (calls t) ds
        \<and> residual t @ c = concat ds @ residual t'
        \<and> calls t' = calls t + length ds
        \<and> list_all (\<lambda>d. length d = CHUNK_SIZE) ds
        \<and> length (residual t') < CHUNK_SIZE
        \<and> keyPromise t' = keyPromise t \<and> salt t' = salt t"
  using transform_loop_frames[OF assms(1)[unfolded transform_def Let_def]] by simp

lemma transform_all_frames:
  "transform_all P t cs = (out, t') \<Longrightarrow> length (residual t) < CHUNK_SIZE \<Longrightarrow>
     \<exists>ds. concat out = frames P (keyPromise t) (calls t) ds
        \<and> residual t @ concat cs = concat ds @ residual t'
        \<and> calls t' = calls t + length ds
        \<and> list_all (\<lambda>d. length d = CHUNK_SIZE) ds
        \<and> length (residual t') < CHUNK_SIZE
        \<and> keyPromise t' = keyPromise t \<and> salt t' = salt t"
proof (induction cs arbitrary: t out)
  case Nil
  then show ?case by (intro exI[of _ "[]"]) simp
next
  case (Cons c cs)
  obtain o1 t1 where a: "transform P t c = (o1, t1)" by (cases "transform P t c")
  obtain o2 t2 where b: "transform_all P t1 cs = (o2, t2)" by (cases "transform_all P t1 cs")
  from Cons.prems(1) a b have o: "out = o1 @ o2" "t' = t2" by simp_all
  from transform_frames[OF a Cons.prems(2)] obtain ds1 where
    d1: "concat o1 = frames P (keyPromise t) (calls t) ds1" "residual t @ c = concat ds1 @ residual t1"
        "calls t1 = calls t + length ds1" "list_all (\<lambda>d. length d = CHUNK_SIZE) ds1"
        "length (residual t1) < CHUNK_SIZE" "keyPromise t1 = keyPromise t" "salt t1 = salt t"
    by blast
  from Cons.IH[OF b[unfolded o(2)[symmetric]] d1(5)] o(2) obtain ds2 where
    d2: "concat o2 = frames P (keyPromise t1) (calls t1) ds2"
        "residual t1 @ concat cs = concat ds2 @ residual t2"
        "calls t2 = calls t1 + length ds2" "list_all (\<lambda>d. length d = CHUNK_SIZE) ds2"
        "length (residual t2) < CHUNK_SIZE" "keyPromise t2 = keyPromise t1" "salt t2 = salt t1"
    by blast
  have "residual t @ concat (c # cs) = concat (ds1 @ ds2) @ residual t2"
    using d1(2) d2(2) by (metis append.assoc concat.simps(2) concat_append)
  with d1 d2 o show ?case
    by (intro exI[of _ "ds1 @ ds2"]) (simp add: frames_append)
qed

lemma consume_buffer:
  "0 \<le> n \<Longrightarrow> buffer (snd (consume n r)) = drop (nat n) (buffer r)"
  by (simp add: consume_def slice_from_nonneg)

lemma digits4:
  fixes n :: nat
  assumes "n < 2 ^ 32"
  shows "n mod 256 + 256 * (n div 256 mod 256) + 65536 * (n div 65536 mod 256)
        + 16777216 * (n div 16777216 mod 256) = n"
proof -
  have a: "n div 65536 = n div 256 div 256" "n div 16777216 = n div 256 div 256 div 256"
    by (simp_all add: div_mult2_eq)
  have "n div 256 div 256 div 256 < 256" using assms by (simp add: a(2)[symmetric])
  then have b: "n div 256 div 256 div 256 mod 256 = n div 256 div 256 div 256" by simp
  have e1: "256 * (n div 256) + n mod 256 = n" by (rule mult_div_mod_eq)
  have e2: "256 * (n div 256 div 256) + n div 256 mod 256 = n div 256" by (rule mult_div_mod_eq)
  have e3: "256 * (n div 256 div 256 div 256) + n div 256 div 256 mod 256 = n div 256 div 256"
    by (rule mult_div_mod_eq)
  show ?thesis unfolding a b using e1 e2 e3 by linarith
qed
lemma getUint32_setUint32: "n < 2 ^ 32 \<Longrightarrow> getUint32 (setUint32 n) = Some n"
proof -
  assume n: "n < 2 ^ 32"
  have a: "\<And>m. unat (of_nat (m mod 256) :: byte) = m mod 256"
    by (simp add: unat_of_nat)
  show ?thesis by (simp only: getUint32_def setUint32_def list.case a digits4[OF n])
qed

lemma length_setUint32: "length (setUint32 n) = 4"
  by (simp add: setUint32_def)

lemma length_getRandomValues: "length (getRandomValues P k n) = n"
  by (simp add: getRandomValues_def)

lemma decrypt_loop_frame:
  assumes ok: "reader_ok r"
    and p: "pending r = iv @ setUint32 (length c) @ c @ rest"
    and iv: "length iv = 12" and c: "length c < 2 ^ 32"
  shows "\<exists>r'. decrypt_loop P key r out =
            (case decrypt P key iv c of
               None \<Rightarrow> (out, Errored IncorrectPassword)
             | Some plain \<Rightarrow> decrypt_loop P key r' (out @ [plain]))
          \<and> reader_ok r' \<and> pending r' = rest \<and> ending r' = ending r"
proof -
  have "16 \<le> int (length (pending r))" by (simp add: p iv length_setUint32)
  from ensure_enough[OF ok this] obtain r1 where
    r1: "ensure 16 r = Inr (True, r1)" "pending r1 = pending r" "ending r1 = ending r"
        "reader_ok r1" "16 \<le> int (length (buffer r1))" by blast
  obtain x r2 where c1: "consume 12 r1 = (x, r2)" by (cases "consume 12 r1")
  have x: "x = iv" and r2: "pending r2 = setUint32 (length c) @ c @ rest"
       "ending r2 = ending r" "reader_ok r2" "4 \<le> int (length (buffer r2))"
    using consume_enough[of 12 r1] consume_buffer[of 12 r1] r1 c1 p iv by simp_all
  obtain y r3 where c2: "consume 4 r2 = (y, r3)" by (cases "consume 4 r2")
  have y: "y = setUint32 (length c)" and r3: "pending r3 = c @ rest"
       "ending r3 = ending r" "reader_ok r3"
    using consume_enough[of 4 r2] r2 c2 by (simp_all add: length_setUint32)
  have "int (length c) \<le> int (length (pending r3))" by (simp add: r3)
  from ensure_enough[OF r3(3) this] obtain r4 where
    r4: "ensure (int (length c)) r3 = Inr (True, r4)" "pending r4 = pending r3"
        "ending r4 = ending r3" "reader_ok r4" "int (length c) \<le> int (length (buffer r4))"
    by blast
  obtain z r5 where c3: "consume (int (length c)) r4 = (z, r5)"
    by (cases "consume (int (length c)) r4")
  have z: "z = c" and r5: "pending r5 = rest" "ending r5 = ending r" "reader_ok r5"
    using consume_enough[of "int (length c)" r4] r4 r3 c3 by simp_all
  have "decrypt_loop P key r out =
            (case decrypt P key iv c of
               None \<Rightarrow> (out, Errored IncorrectPassword)
             | Some plain \<Rightarrow> decrypt_loop P key r5 (out @ [plain]))"
    by (subst decrypt_loop.simps)
       (simp add: r1 c1 c2 x y getUint32_setUint32[OF c] r4 c3 z)
  with r5 show ?thesis by blast
qed

lemma decrypt_loop_end:
  assumes "reader_ok r" "ending r = Closed" "length (pending r) < 16"
  shows "decrypt_loop P key r out = (out, Closed)"
proof -
  from ensure_Closed[OF assms(2), of 16] obtain ok r' where e: "ensure 16 r = Inr (ok, r')"
    by blast
  have "ok = (16 \<le> int (length (pending r)))" using ensure_Inr[OF e] assms(1) by blast
  with assms(3) have "\<not> ok" by simp
  with e show ?thesis by (subst decrypt_loop.simps) simp
qed

lemma decrypt_loop_frames:
  assumes "\<forall>iv d. decrypt P key iv (encrypt P key iv d) = Some d"
      and "\<forall>iv d. length (encrypt P key iv d) = length d + 16"
  shows "reader_ok r \<Longrightarrow> pending r = frames P key k ds @ rest
     \<Longrightarrow> list_all (\<lambda>d. length d \<le> CHUNK_SIZE) ds
     \<Longrightarrow> \<exists>r'. decrypt_loop P key r out = decrypt_loop P key r' (out @ ds)
            \<and> reader_ok r' \<and> pending r' = rest \<and> ending r' = ending r"
proof (induction ds arbitrary: r k out)
  case Nil
  then show ?case by auto
next
  case (Cons d ds)
  let ?iv = "getRandomValues P k 12"
  let ?c = "encrypt P key ?iv d"
  have p: "pending r = ?iv @ setUint32 (length ?c) @ ?c @ (frames P key (Suc k) ds @ rest)"
    using Cons.prems(2) by (simp add: Let_def)
  have "length ?c < 2 ^ 32"
    using assms(2) Cons.prems(3) by (simp add: CHUNK_SIZE_def)
  from decrypt_loop_frame[OF Cons.prems(1) p length_getRandomValues this, of P key out] assms(1)
  obtain r1 where r1: "decrypt_loop P key r out = decrypt_loop P key r1 (out @ [d])"
      "reader_ok r1" "pending r1 = frames P key (Suc k) ds @ rest" "ending r1 = ending r"
    by auto
  from Cons.IH[OF r1(2,3), of "out @ [d]"] Cons.prems(3) r1(1,4) show ?case by auto
qed

lemma length_toy_tag: "length (toy_tag k) = 16"
  by (simp add: toy_tag_def min_def)

lemma ENC_signature: "ENC (str ''LE_ENC'') = [76, 69, 95, 69, 78, 67]"
  by (simp add: ENC_def str_def is_high_surrogate_def is_low_surrogate_def utf8_bytes_def)

lemma DEC_signature: "DEC [76, 69, 95, 69, 78, 67] = str ''LE_ENC''"
  by (simp add: DEC_def str_def utf8_init_def first_octet_def strip_bom_def utf16_units_def)

lemma encryptStream_frames:
  "\<exists>ds. concat (encryptStream P password s plaintext)
           = ENC (str ''LE_ENC'') @ s @ frames P (deriveKey P password s) 0 ([] # ds)
        \<and> concat ds = concat plaintext
        \<and> list_all (\<lambda>d. length d \<le> CHUNK_SIZE) ds"
proof -
  let ?key = "deriveKey P password s"
  let ?t0 = "EncryptionTransformer_new P password s"
  obtain o0 t1 where s0: "start P ?t0 = (o0, t1)" by (cases "start P ?t0")
  obtain o1 t2 where s1: "transform_all P t1 plaintext = (o1, t2)"
    by (cases "transform_all P t1 plaintext")
  obtain o2 t3 where s2: "flush P t2 = (o2, t3)" by (cases "flush P t2")
  have t1: "concat o0 = ENC (str ''LE_ENC'') @ s @ frames P ?key 0 [[]]"
       "residual t1 = []" "calls t1 = 1" "keyPromise t1 = ?key"
    using s0 by (auto simp: start_def EncryptionTransformer_new_def encryptAndPush_def Let_def)
  have "length (residual t1) < CHUNK_SIZE" by (simp add: t1 CHUNK_SIZE_def)
  from transform_all_frames[OF s1 this] obtain ds where
    ds: "concat o1 = frames P ?key 1 ds" "concat plaintext = concat ds @ residual t2"
        "calls t2 = 1 + length ds" "list_all (\<lambda>d. length d = CHUNK_SIZE) ds"
        "length (residual t2) < CHUNK_SIZE" "keyPromise t2 = ?key"
    by (auto simp: t1)
  let ?last = "if residual t2 = [] then [] else [residual t2]"
  have o2: "concat o2 = frames P ?key (1 + length ds) ?last"
    using s2 ds(3,6) by (auto simp: flush_def encryptAndPush_def Let_def)
  have "concat (encryptStream P password s plaintext) = concat o0 @ concat o1 @ concat o2"
    by (simp add: encryptStream_def s0 s1 s2)
  also have "\<dots> = ENC (str ''LE_ENC'') @ s @ frames P ?key 0 ([] # ds @ ?last)"
    unfolding t1 ds(1) o2
    using frames_append[of P ?key 0 "[[]]" "ds @ ?last"] frames_append[of P ?key 1 ds ?last]
    by simp
  finally have a: "concat (encryptStream P password s plaintext)
      = ENC (str ''LE_ENC'') @ s @ frames P ?key 0 ([] # ds @ ?last)" .
  have b: "concat (ds @ ?last) = concat plaintext" using ds(2) by simp
  have c: "list_all (\<lambda>d. length d \<le> CHUNK_SIZE) (ds @ ?last)"
    using ds(4,5) by (auto simp: list_all_iff)
  from a b c show ?thesis by blast
qed

lemma DecryptionSource_header:
  assumes "concat file = ENC (str ''LE_ENC'') @ s @ rest" "length s = 16"
  shows "\<exists>r. DecryptionSource_readable P (file, Closed) password
              = decrypt_loop P (deriveKey P password s) r []
            \<and> reader_ok r \<and> pending r = rest \<and> ending r = Closed"
proof -
  let ?r0 = "reader_new (file, Closed)"
  have r0: "reader_ok ?r0" "pending ?r0 = ENC (str ''LE_ENC'') @ s @ rest" "ending ?r0 = Closed"
    by (simp_all add: reader_new_def reader_ok_def pending_def assms(1))
  have "22 \<le> int (length (pending ?r0))" by (simp add: r0 ENC_signature assms(2))
  from ensure_enough[OF r0(1) this] obtain r1 where
    r1: "ensure 22 ?r0 = Inr (True, r1)" "pending r1 = pending ?r0" "ending r1 = Closed"
        "reader_ok r1" "22 \<le> int (length (buffer r1))" by (auto simp: r0)
  obtain x r2 where c1: "consume 6 r1 = (x, r2)" by (cases "consume 6 r1")
  have x: "x = ENC (str ''LE_ENC'')" and r2: "pending r2 = s @ rest"
       "ending r2 = Closed" "reader_ok r2" "16 \<le> int (length (buffer r2))"
    using consume_enough[of 6 r1] consume_buffer[of 6 r1] r1 c1 r0
    by (simp_all add: ENC_signature)
  obtain y r3 where c2: "consume 16 r2 = (y, r3)" by (cases "consume 16 r2")
  have y: "y = s" and r3: "pending r3 = rest" "ending r3 = Closed" "reader_ok r3"
    using consume_enough[of 16 r2] r2 c2 assms(2) by simp_all
  have "DecryptionSource_readable P (file, Closed) password
          = decrypt_loop P (deriveKey P password s) r3 []"
    by (simp add: DecryptionSource_readable_def r1 c1 c2 x y ENC_signature DEC_signature)
  with r3 show ?thesis by blast
qed

text \<open>
  C1. Whatever the password, the plaintext chunks and the way the encrypted octets are cut
  into chunks on the way back, the reader closes normally and what it emits is an empty
  chunk (the verification chunk) followed by chunks whose concatenation is the plaintext.
  The platform's cipher is assumed to decrypt what it encrypted under the same key and
  nonce, and to add 16 octets (the tag) to the plaintext; the salt has 16 octets.
\<close>

theorem encrypt_decrypt_roundtrip:
  assumes "\<forall>key iv d. decrypt P key iv (encrypt P key iv d) = Some d"
      and "\<forall>key iv d. length (encrypt P key iv d) = length d + 16"
      and "length s = 16"
      and "concat file = concat (encryptStream P password s plaintext)"
  shows "\<exists>ds. DecryptionSource_readable P (file, Closed) password = ([] # ds, Closed)
            \<and> concat ds = concat plaintext"
proof -
  let ?key = "deriveKey P password s"
  from encryptStream_frames[of P password s plaintext] obtain ds where
    ds: "concat (encryptStream P password s plaintext)
           = ENC (str ''LE_ENC'') @ s @ frames P ?key 0 ([] # ds)"
        "concat ds = concat plaintext" "list_all (\<lambda>d. length d \<le> CHUNK_SIZE) ds"
    by blast
  from DecryptionSource_header[OF ds(1)[folded assms(4)] assms(3), of P password]
  obtain r where r: "DecryptionSource_readable P (file, Closed) password
              = decrypt_loop P ?key r []"
      "reader_ok r" "pending r = frames P ?key 0 ([] # ds)" "ending r = Closed"
    by blast
  have a: "\<forall>iv d. decrypt P ?key iv (encrypt P ?key iv d) = Some d"
       "\<forall>iv d. length (encrypt P ?key iv d) = length d + 16"
    using assms(1,2) by simp_all
  have "list_all (\<lambda>d. length d \<le> CHUNK_SIZE) ([] # ds)" using ds(3) by simp
  from decrypt_loop_frames[OF a r(2) _ this, of 0 "[]" "[]"] r(3)
  obtain r' where r': "decrypt_loop P ?key r [] = decrypt_loop P ?key r' ([] # ds)"
      "reader_ok r'" "pending r' = []" "ending r' = ending r"
    by auto
  have "decrypt_loop P ?key r' ([] # ds) = ([] # ds, Closed)"
    by (rule decrypt_loop_end) (simp_all add: r' r(4))
  with r(1) r'(1) ds(2) show ?thesis by simp
qed

theorem encrypt_decrypt_roundtrip_witness:
  "(\<forall>key iv d. decrypt toy key iv (encrypt toy key iv d) = Some d)
   \<and> (\<forall>key iv d. length (encrypt toy key iv d) = length d + 16)
   \<and> length (replicate 16 (7 :: byte)) = 16
   \<and> (\<exists>ds. DecryptionSource_readable toy
              (encryptStream toy (str ''p'') (replicate 16 7) [[1, 2, 3], [4]], Closed) (str ''p'')
            = ([] # ds, Closed)
          \<and> concat ds = [1, 2, 3, 4])"
proof -
  have a: "\<forall>key iv d. decrypt toy key iv (encrypt toy key iv d) = Some d"
    by (simp add: toy_def length_toy_tag)
  have b: "\<forall>key iv d. length (encrypt toy key iv d) = length d + 16"
    by (simp add: toy_def length_toy_tag)
  have c: "length (replicate 16 (7 :: byte)) = 16" by simp
  from encrypt_decrypt_roundtrip[OF a b c refl, of "str ''p''" "[[1, 2, 3], [4]]"] a b
  show ?thesis by simp
qed

text \<open>
  C7 (as amended). On \<open>flush\<close> the residual buffer is encrypted and emitted as one last
  chunk when it is not empty; when it is empty, \<open>flush\<close> emits nothing.
\<close>

theorem flush_residual:
  "fst (flush P t) =
     (if residual t = [] then []
      else (let iv = getRandomValues P (calls t) 12;
                ciphertext = encrypt P (keyPromise t) iv (residual t)
            in [iv, setUint32 (length ciphertext), ciphertext]))"
  by (simp add: flush_def encryptAndPush_def Let_def)

lemma length_concat_chunks:
  "list_all (\<lambda>d. length d = n) ds \<Longrightarrow> length (concat ds) = length ds * n"
  by (induction ds) simp_all

theorem flush_empty_counterexample:
  "fst (flush toy (snd (transform toy
          (snd (start toy (EncryptionTransformer_new toy (str ''p'') (replicate 16 7))))
          (replicate CHUNK_SIZE 0)))) = []"
proof -
  let ?t1 = "snd (start toy (EncryptionTransformer_new toy (str ''p'') (replicate 16 7)))"
  have r1: "residual ?t1 = []"
    by (simp add: start_def encryptAndPush_def EncryptionTransformer_new_def Let_def)
  have pos: "0 < CHUNK_SIZE" by (simp add: CHUNK_SIZE_def)
  obtain out t' where t: "transform toy ?t1 (replicate CHUNK_SIZE 0) = (out, t')"
    by (cases "transform toy ?t1 (replicate CHUNK_SIZE 0)")
  from transform_frames[OF t] r1 pos obtain ds where
    ds: "replicate CHUNK_SIZE (0::byte) = concat ds @ residual t'"
        "list_all (\<lambda>d. length d = CHUNK_SIZE) ds" "length (residual t') < CHUNK_SIZE"
    by auto
  from ds(1) have "CHUNK_SIZE = length (concat ds) + length (residual t')"
    by (metis length_append length_replicate)
  then have l: "CHUNK_SIZE = length ds * CHUNK_SIZE + length (residual t')"
    by (simp add: length_concat_chunks[OF ds(2)])
  have "ds \<noteq> []" using l ds(3) by auto
  then have "CHUNK_SIZE \<le> length ds * CHUNK_SIZE" by (cases ds) simp_all
  with l have "length (residual t') = 0" by linarith
  then have "residual t' = []" by simp
  then show ?thesis by (simp add: t flush_def)
qed

lemma tar_loop_errored:
  "tar_loop C opfs (reader_new ([], Errored e)) c acc = (acc, Failed e)"
  by (subst tar_loop.simps) (simp add: ensure_Nil reader_new_def)

lemma sniff_signature:
  assumes "concat file = ENC (str ''LE_ENC'') @ rest"
  shows "DEC (slice (slice (concat file) 0 8) 0 6) = str ''LE_ENC''"
  by (simp add: assms slice_nonneg ENC_signature DEC_signature)

text \<open>
  The reader uses the password only through the key derived from it: under a password
  that derives the key the archive was written with, the archive is read back.
\<close>

lemma same_key_roundtrip:
  assumes "\<forall>key iv d. decrypt P key iv (encrypt P key iv d) = Some d"
      and "\<forall>key iv d. length (encrypt P key iv d) = length d + 16"
      and "length s = 16"
      and "concat file = concat (encryptStream P p s plaintext)"
      and "deriveKey P w s = deriveKey P p s"
  shows "\<exists>ds. DecryptionSource_readable P (file, Closed) w = ([] # ds, Closed)
            \<and> concat ds = concat plaintext"
proof -
  let ?key = "deriveKey P p s"
  from encryptStream_frames[of P p s plaintext] obtain ds where
    ds: "concat (encryptStream P p s plaintext)
           = ENC (str ''LE_ENC'') @ s @ frames P ?key 0 ([] # ds)"
        "concat ds = concat plaintext" "list_all (\<lambda>d. length d \<le> CHUNK_SIZE) ds"
    by blast
  from DecryptionSource_header[OF ds(1)[folded assms(4)] assms(3), of P w]
  obtain r where r: "DecryptionSource_readable P (file, Closed) w
              = decrypt_loop P ?key r []"
      "reader_ok r" "pending r = frames P ?key 0 ([] # ds)" "ending r = Closed"
    unfolding assms(5) by blast
  have a: "\<forall>iv d. decrypt P ?key iv (encrypt P ?key iv d) = Some d"
       "\<forall>iv d. length (encrypt P ?key iv d) = length d + 16"
    using assms(1,2) by simp_all
  have "list_all (\<lambda>d. length d \<le> CHUNK_SIZE) ([] # ds)" using ds(3) by simp
  from decrypt_loop_frames[OF a r(2) _ this, of 0 "[]" "[]"] r(3)
  obtain r' where r': "decrypt_loop P ?key r [] = decrypt_loop P ?key r' ([] # ds)"
      "reader_ok r'" "pending r' = []" "ending r' = ending r"
    by auto
  have "decrypt_loop P ?key r' ([] # ds) = ([] # ds, Closed)"
    by (rule decrypt_loop_end) (simp_all add: r' r(4))
  with r(1) r'(1) ds(2) show ?thesis by simp
qed




section \<open>Text, octal numbers and header fields\<close>

subsection \<open>Octets and code units\<close>

lemma unat_ucast_byte:
  fixes c :: jschar
  assumes "c < 0x80"
  shows "unat (ucast c :: byte) = unat c"
proof -
  have "unat c < 128" using assms by (simp add: word_less_nat_alt)
  then have "take_bit 8 (unat c) = unat c" by (simp add: take_bit_nat_eq_self)
  moreover have "unat (ucast c :: byte) = take_bit 8 (unat c)"
    using unsigned_ucast_eq[of c, where ?'c = 8 and ?'a = nat] by simp
  ultimately show ?thesis by simp
qed

lemma unat_ucast_jschar:
  fixes b :: byte
  shows "unat (ucast b :: jschar) = unat b"
proof -
  have "unat b < 256" using unsigned_less[of b, where ?'a = nat] by simp
  then have "take_bit 16 (unat b) = unat b" by (simp add: take_bit_nat_eq_self)
  moreover have "unat (ucast b :: jschar) = take_bit 16 (unat b)"
    using unsigned_ucast_eq[of b, where ?'c = 16 and ?'a = nat] by simp
  ultimately show ?thesis by simp
qed

lemma not_surrogate_ascii:
  "(c::jschar) < 0x80 \<Longrightarrow> \<not> is_high_surrogate c \<and> \<not> is_low_surrogate c"
  by (simp add: is_high_surrogate_def is_low_surrogate_def word_less_nat_alt word_le_nat_alt)

lemma utf8_bytes_ascii: "(c::jschar) < 0x80 \<Longrightarrow> utf8_bytes (unat c) = [ucast c]"
  by (simp add: utf8_bytes_def word_less_nat_alt)

lemma utf16_units_ascii: "(b::byte) < 0x80 \<Longrightarrow> utf16_units (unat b) = [ucast b]"
  by (simp add: utf16_units_def word_less_nat_alt)

lemma ucast_less_ascii: "(c::jschar) < 0x80 \<Longrightarrow> (ucast c :: byte) < 0x80"
  using unat_ucast_byte[of c] by (simp add: word_less_nat_alt)

lemma ucast_ucast_ascii: "(c::jschar) < 0x80 \<Longrightarrow> (ucast (ucast c :: byte) :: jschar) = c"
  using unat_ucast_byte[of c] unat_ucast_jschar[of "ucast c"]
  by (simp add: word_unat_eq_iff)

lemma ENC_ascii: "ascii s \<Longrightarrow> ENC s = map ucast s"
proof (induction s)
  case Nil
  show ?case by (simp add: ENC_def)
next
  case (Cons c s)
  then have c: "c < 0x80" and s: "ascii s" by (simp_all add: ascii_def)
  from Cons.IH[OF s] show ?case
    using not_surrogate_ascii[OF c] utf8_bytes_ascii[OF c] by (simp add: ENC_def)
qed

lemma length_ENC_ascii: "ascii s \<Longrightarrow> length (ENC s) = length s"
  by (simp add: ENC_ascii)

lemma utf8_decode_ascii:
  "list_all (\<lambda>b. b < 0x80) bs \<Longrightarrow> utf8_decode utf8_init bs = bs"
  by (induction bs) (simp_all add: utf8_init_def first_octet_def)

lemma DEC_ascii:
  assumes "list_all (\<lambda>b. b < 0x80) bs"
  shows "DEC bs = map ucast bs"
proof -
  have a: "list_all (\<lambda>b. b < 0x80) (map unat bs)"
    using assms by (simp add: list_all_iff word_less_nat_alt)
  have b: "strip_bom (map unat bs) = map unat bs"
    using a by (cases bs) (simp_all add: strip_bom_def)
  have "concat (map utf16_units (map unat bs)) = map ucast bs"
    using assms by (induction bs) (simp_all add: utf16_units_ascii)
  then show ?thesis by (simp add: DEC_def utf8_decode_ascii[OF a] b)
qed

lemma DEC_ENC_ascii: "ascii s \<Longrightarrow> DEC (ENC s) = s"
proof -
  assume a: "ascii s"
  then have "list_all (\<lambda>b. b < 0x80) (map ucast s :: bytes)"
    by (simp add: ascii_def list_all_iff ucast_less_ascii)
  from DEC_ascii[OF this] a show ?thesis
    by (simp add: ENC_ascii ascii_def list_all_iff ucast_ucast_ascii map_idI)
qed

subsection \<open>Octal text\<close>

lemma octal_value_snoc: "octal_value (ds @ [d]) = octal_value ds * 8 + (unat d - 48)"
  by (simp add: octal_value_def)

lemma unat_digit: "n < 8 \<Longrightarrow> unat (of_nat (48 + n) :: jschar) = 48 + n"
proof -
  assume "n < 8"
  then have "(48 + n) mod 2 ^ LENGTH(16) = 48 + n" by simp
  then show ?thesis by (simp only: unat_of_nat)
qed

lemma unat_digit': "n < 8 \<Longrightarrow> unat (48 + of_nat n :: jschar) = 48 + n"
  using unat_digit[of n] by simp

lemma is_octal_digit_of_nat: "n < 8 \<Longrightarrow> is_octal_digit (48 + of_nat n)"
  using unat_digit'[of n] by (simp add: is_octal_digit_def word_le_nat_alt)

lemma toString8_digits: "list_all is_octal_digit (toString8 n)"
proof (induction n rule: toString8.induct)
  case (1 n)
  then show ?case
    by (subst toString8.simps) (simp add: is_octal_digit_of_nat)
qed

lemma octal_value_toString8: "octal_value (toString8 n) = n"
proof (induction n rule: toString8.induct)
  case (1 n)
  show ?case
  proof (cases "n < 8")
    case True
    then show ?thesis
      using unat_digit'[of n] by (subst toString8.simps) (simp add: octal_value_def)
  next
    case False
    with 1 have "octal_value (toString8 (n div 8)) = n div 8" by simp
    with False show ?thesis
      using unat_digit'[of "n mod 8"]
      by (subst toString8.simps) (simp add: octal_value_snoc)
  qed
qed

lemma length_toString8: "n < 8 ^ k \<Longrightarrow> 0 < k \<Longrightarrow> length (toString8 n) \<le> k"
proof (induction n arbitrary: k rule: toString8.induct)
  case (1 n)
  show ?case
  proof (cases "n < 8")
    case True
    with "1.prems" show ?thesis by (subst toString8.simps) simp
  next
    case False
    obtain j where k: "k = Suc j" using "1.prems"(2) by (cases k) simp_all
    from False "1.prems"(1) k have j: "0 < j" by (cases j) simp_all
    from "1.prems"(1) k have "n div 8 < 8 ^ j"
      by (simp add: less_mult_imp_div_less mult.commute)
    from "1.IH"[OF False this j] False k show ?thesis
      by (subst toString8.simps) simp
  qed
qed

lemma toString8_nonempty: "toString8 n \<noteq> []"
  by (subst toString8.simps) simp

lemma octal_value_zeros: "octal_value (replicate m 0x30 @ ds) = octal_value ds"
  by (induction m) (simp_all add: octal_value_def)

lemma octal_digit_facts:
  assumes "is_octal_digit c"
  shows "c < 0x80" "\<not> is_white_space c" "c \<noteq> 0x2D" "c \<noteq> 0x2B" "c \<noteq> 0"
  using assms
  by (auto simp: is_octal_digit_def is_white_space_def word_le_nat_alt word_less_nat_alt)

subsection \<open>Writes into the header buffer\<close>

lemma fold_update:
  "length (fold (\<lambda>i buf. buf[off + i := f i]) [0 ..< n] b) = length b
   \<and> (\<forall>j < length b. fold (\<lambda>i buf. buf[off + i := f i]) [0 ..< n] b ! j
          = (if off \<le> j \<and> j < off + n then f (j - off) else b ! j))"
proof (induction n)
  case 0
  show ?case by auto
next
  case (Suc n)
  let ?g = "fold (\<lambda>i buf. buf[off + i := f i]) [0 ..< n] b"
  from Suc have l: "length ?g = length b"
    and n: "\<And>j. j < length b \<Longrightarrow> ?g ! j = (if off \<le> j \<and> j < off + n then f (j - off) else b ! j)"
    by simp_all
  have "(?g[off + n := f n]) ! j
          = (if off \<le> j \<and> j < off + Suc n then f (j - off) else b ! j)"
    if "j < length b" for j
    using that l n[OF that] by (cases "j = off + n") (simp_all add: nth_list_update)
  with l show ?case by simp
qed

lemma length_writeStr [simp]: "length (writeStr b s off len) = length b"
  using fold_update[of off "\<lambda>i. ENC s ! i" "min len (length (ENC s))" b]
  by (simp add: writeStr_def Let_def)

lemma nth_writeStr:
  "j < length b \<Longrightarrow> writeStr b s off len ! j
     = (if off \<le> j \<and> j < off + min len (length (ENC s)) then ENC s ! (j - off) else b ! j)"
  using fold_update[of off "\<lambda>i. ENC s ! i" "min len (length (ENC s))" b]
  by (simp add: writeStr_def Let_def)

lemma length_writeOctal [simp]: "length (writeOctal b n off len) = length b"
  by (simp add: writeOctal_def)

lemma length_header_fields [simp]: "length (header_fields f sz d now) = 512"
  by (simp add: header_fields_def Let_def split: prod.splits)

lemma length_createTarHeader [simp]: "length (createTarHeader f sz d now) = 512"
  by (simp add: createTarHeader_def Let_def)

lemma octal_text_facts:
  assumes "n < 8 ^ k" "0 < k"
  shows "length (octal_text n k) = k" "list_all is_octal_digit (octal_text n k)"
        "octal_value (octal_text n k) = n" "ascii (octal_text n k)"
proof -
  from length_toString8[OF assms] show l: "length (octal_text n k) = k"
    by (simp add: octal_text_def padStart_def)
  have z: "is_octal_digit 0x30" by (simp add: is_octal_digit_def)
  with toString8_digits[of n] show d: "list_all is_octal_digit (octal_text n k)"
    by (auto simp: octal_text_def padStart_def list_all_iff)
  show "octal_value (octal_text n k) = n"
    by (simp add: octal_text_def padStart_def octal_value_zeros octal_value_toString8)
  from d show "ascii (octal_text n k)"
    by (simp add: ascii_def list_all_iff octal_digit_facts)
qed

lemma nth_writeStr_octal:
  assumes "j < length b" "n < 8 ^ k" "0 < k"
  shows "writeStr b (padStart (toString8 n) k 0x30) off k ! j
     = (if off \<le> j \<and> j < off + k then ucast (octal_text n k ! (j - off)) else b ! j)"
proof -
  note f = octal_text_facts[OF assms(2,3)]
  have e: "ENC (octal_text n k) = map ucast (octal_text n k)"
    using ENC_ascii[OF f(4)] .
  show ?thesis
    using assms(1) f(1)
    by (auto simp: nth_writeStr octal_text_def[symmetric] e)
qed

lemma nth_writeOctal:
  assumes "j < length b" "n < 8 ^ (len - 1)" "1 < len"
  shows "writeOctal b n off len ! j
     = (if off \<le> j \<and> j < off + (len - 1) then ucast (octal_text n (len - 1) ! (j - off)) else b ! j)"
  using nth_writeStr_octal[OF assms(1,2), of off] assms(3) by (simp add: writeOctal_def)

text \<open>Outside the octets it may write, \<open>writeOctal\<close> leaves the buffer alone, whatever the number.\<close>

lemma nth_writeOctal_outside:
  assumes "j < length b" "j < off \<or> off + (len - 1) \<le> j"
  shows "writeOctal b n off len ! j = b ! j"
  using assms by (auto simp: writeOctal_def nth_writeStr)

lemma nth_writeStr_outside:
  assumes "j < length b" "j < off \<or> off + len \<le> j"
  shows "writeStr b s off len ! j = b ! j"
  using assms by (auto simp: nth_writeStr)

lemma replicate8: "replicate 8 x = [x, x, x, x, x, x, x, x]"
  by (simp add: numeral_eq_Suc)

lemma ENC_spaces: "ENC (str ''        '') = replicate 8 0x20"
  unfolding replicate8
  by (simp add: ENC_def str_def is_high_surrogate_def is_low_surrogate_def utf8_bytes_def)

lemma header_fields_checksum:
  assumes "148 \<le> j" "j < 156"
  shows "header_fields f sz d now ! j = 0x20"
  using assms
  by (simp add: header_fields_def Let_def nth_writeStr ENC_spaces split: prod.splits)

lemma octet_sum_bound: "octet_sum bs \<le> 255 * length bs"
proof (induction bs)
  case Nil
  show ?case by (simp add: octet_sum_def)
next
  case (Cons b bs)
  have "unat b < 256" using unsigned_less[of b, where ?'a = nat] by simp
  with Cons show ?case by (simp add: octet_sum_def)
qed

lemma slice_nth:
  assumes "a \<le> b" "b \<le> length xs"
  shows "slice xs (int a) (int b) = map ((!) xs) [a ..< b]"
proof -
  have "slice xs (int a) (int b) = take (b - a) (drop a xs)"
    using assms by (simp add: slice_def rel_index_def min_def)
  also have "\<dots> = map ((!) xs) [a ..< b]"
    using assms by (auto intro!: nth_equalityI)
  finally show ?thesis .
qed

lemma parseInt8_octal:
  assumes "list_all is_octal_digit ds" "ds \<noteq> []"
  shows "parseInt8 (trim (ds @ replicate k 0x20)) = Some (int (octal_value ds))"
    and "parseInt8 (trim (ds @ [0])) = Some (int (octal_value ds))"
proof -
  obtain c cs where ds: "ds = c # cs" using assms(2) by (cases ds) simp_all
  have c: "is_octal_digit c" using assms(1) ds by simp
  note cf = octal_digit_facts[OF c]
  obtain e es where r: "rev ds = e # es" using assms(2) by (cases "rev ds") simp_all
  then have "e \<in> set ds" by (metis list.set_intros(1) set_rev)
  then have e: "is_octal_digit e" using assms(1) by (simp add: list_all_iff)
  note ef = octal_digit_facts[OF e]
  have sp: "is_white_space 0x20" by (simp add: is_white_space_def)
  have nz: "\<not> is_white_space 0" by (simp add: is_white_space_def)
  have t1: "trim (ds @ replicate k 0x20) = ds"
  proof -
    have "dropWhile is_white_space (ds @ replicate k 0x20) = ds @ replicate k 0x20"
      using cf(2) by (simp add: ds)
    moreover have "dropWhile is_white_space (replicate k 0x20 @ rev ds) = rev ds"
      using sp ef(2) r by (simp add: dropWhile_append)
    ultimately show ?thesis by (simp add: trim_def)
  qed
  have t2: "trim (ds @ [0]) = ds @ [0]"
    using cf(2) nz by (simp add: trim_def ds)
  have tw: "takeWhile is_octal_digit ds = ds"
    using assms(1) by (simp add: list_all_iff takeWhile_eq_all_conv)
  have nd: "\<not> is_octal_digit 0" by (simp add: is_octal_digit_def)
  have tw2: "takeWhile is_octal_digit (ds @ [0]) = ds"
    using assms(1) nd by (simp add: list_all_iff takeWhile_append2[of ds] )
  have p: "parseInt8 ds = Some (int (octal_value ds))"
    using cf tw by (simp add: parseInt8_def ds Let_def)
  show "parseInt8 (trim (ds @ replicate k 0x20)) = Some (int (octal_value ds))"
    by (simp add: t1 p)
  have "parseInt8 (ds @ [0]) = Some (int (octal_value ds))"
    using cf tw tw2 by (simp add: parseInt8_def ds Let_def)
  then show "parseInt8 (trim (ds @ [0])) = Some (int (octal_value ds))"
    by (simp add: t2)
qed

lemma slice_take_drop:
  "a \<le> b \<Longrightarrow> b \<le> length xs \<Longrightarrow> slice xs (int a) (int b) = take (b - a) (drop a xs)"
  by (simp add: slice_def rel_index_def min_def)

lemma length_slice_nat:
  "a \<le> b \<Longrightarrow> b \<le> length xs \<Longrightarrow> length (slice xs (int a) (int b)) = b - a"
  by (simp add: slice_take_drop)

lemma nth_slice_nat:
  "a \<le> b \<Longrightarrow> b \<le> length xs \<Longrightarrow> i < b - a \<Longrightarrow> slice xs (int a) (int b) ! i = xs ! (a + i)"
  by (simp add: slice_take_drop)

lemma DEC_ucast_ascii:
  assumes "ascii s"
  shows "DEC (map ucast s) = s"
  using DEC_ENC_ascii[OF assms] ENC_ascii[OF assms] by simp

lemma octal_field_decode:
  assumes "list_all is_octal_digit ds" "ds \<noteq> []"
  shows "parseInt8 (trim (DEC (map ucast ds @ replicate k 0x20))) = Some (int (octal_value ds))"
    and "parseInt8 (trim (DEC (map ucast ds @ [0]))) = Some (int (octal_value ds))"
proof -
  have a: "ascii (ds @ replicate k 0x20)" "ascii (ds @ [0])"
    using assms(1) by (auto simp: ascii_def list_all_iff octal_digit_facts)
  have "map ucast ds @ replicate k 0x20 = (map ucast (ds @ replicate k 0x20) :: bytes)"
       "map ucast ds @ [0] = (map ucast (ds @ [0]) :: bytes)"
    by simp_all
  then show "parseInt8 (trim (DEC (map ucast ds @ replicate k 0x20))) = Some (int (octal_value ds))"
    and "parseInt8 (trim (DEC (map ucast ds @ [0]))) = Some (int (octal_value ds))"
    using DEC_ucast_ascii[OF a(1)] DEC_ucast_ascii[OF a(2)] parseInt8_octal[OF assms]
    by simp_all
qed

text \<open>
  C5. For every path, size, directory flag and clock reading, the checksum field of the
  header that \<open>createTarHeader\<close> returns decodes (as an octal number, the way the reader
  decodes the size field) to the sum of the 512 octets of that header with the eight
  octets of the checksum field replaced by spaces.
\<close>

theorem header_checksum:
  "checksum_field (createTarHeader f sz d now)
     = Some (int (octet_sum (blank_checksum (createTarHeader f sz d now))))"
proof -
  let ?hf = "header_fields f sz d now"
  let ?S = "octet_sum ?hf"
  let ?h = "createTarHeader f sz d now"
  let ?ds = "octal_text ?S 6"
  have h: "?h = writeOctal ?hf ?S 148 7"
    by (simp add: createTarHeader_def Let_def octet_sum_def)
  have "?S \<le> 255 * 512" using octet_sum_bound[of ?hf] by simp
  then have S: "?S < 8 ^ (7 - 1)" by simp
  have nth_h: "?h ! j = (if 148 \<le> j \<and> j < 154 then ucast (?ds ! (j - 148)) else ?hf ! j)"
    if "j < 512" for j
    unfolding h using nth_writeOctal[OF _ S, of j ?hf 148] that by simp
  have blank: "blank_checksum ?h = ?hf"
  proof (rule nth_equalityI)
    show "length (blank_checksum ?h) = length ?hf" by (simp add: blank_checksum_def)
  next
    fix j assume "j < length (blank_checksum ?h)"
    then have j: "j < 512" by (simp add: blank_checksum_def)
    consider "j < 148" | "148 \<le> j" "j < 156" | "156 \<le> j" by linarith
    then show "blank_checksum ?h ! j = ?hf ! j"
    proof cases
      case 1
      with j nth_h[of j] show ?thesis by (simp add: blank_checksum_def nth_append)
    next
      case 2
      then have "j - 148 < 8" "\<not> j < 148" by simp_all
      with header_fields_checksum[OF 2, of f sz d now] show ?thesis
        by (simp add: blank_checksum_def nth_append)
    next
      case 3
      then have "\<not> j - 148 < 8" "\<not> j < 148" "156 + (j - 148 - 8) = j" by simp_all
      with j nth_h[of j] 3 show ?thesis by (simp add: blank_checksum_def nth_append)
    qed
  qed
  have S6: "?S < 8 ^ 6" "(0::nat) < 6" using S by simp_all
  note f = octal_text_facts[OF S6]
  have field: "slice ?h 148 156 = map ucast ?ds @ replicate 2 0x20"
  proof (rule nth_equalityI)
    show "length (slice ?h 148 156) = length (map ucast ?ds @ replicate 2 (0x20::byte))"
      using length_slice_nat[of 148 156 ?h] f(1) by simp
  next
    fix i assume "i < length (slice ?h 148 156)"
    then have i: "i < 8" using length_slice_nat[of 148 156 ?h] by simp
    have "slice ?h 148 156 ! i = ?h ! (148 + i)"
      using nth_slice_nat[of 148 156 ?h i] i by simp
    also have "\<dots> = (map ucast ?ds @ replicate 2 (0x20::byte)) ! i"
    proof (cases "i < 6")
      case True
      with nth_h[of "148 + i"] f(1) show ?thesis by (simp add: nth_append)
    next
      case False
      with i have "148 \<le> 148 + i" "148 + i < 156" by simp_all
      from header_fields_checksum[OF this] nth_h[of "148 + i"] False i f(1)
      show ?thesis by (simp add: nth_append)
    qed
    finally show "slice ?h 148 156 ! i = (map ucast ?ds @ replicate 2 (0x20::byte)) ! i" .
  qed
  have ne: "?ds \<noteq> []" using f(1) by auto
  have "checksum_field ?h = Some (int ?S)"
    unfolding checksum_field_def field
    using octal_field_decode(1)[OF f(2) ne, of 2] f(3) by simp
  then show ?thesis by (simp add: blank)
qed

subsection \<open>The fields of a header\<close>

lemma plain_text_ascii: "plain_text s \<Longrightarrow> ascii s"
  by (simp add: plain_text_def ascii_def list_all_iff)

lemma plain_text_append: "plain_text (xs @ ys) \<longleftrightarrow> plain_text xs \<and> plain_text ys"
  by (simp add: plain_text_def)

lemma plain_text_take_drop: "plain_text s \<Longrightarrow> plain_text (take n s) \<and> plain_text (drop n s)"
  using plain_text_append[of "take n s" "drop n s"] by simp

lemma createTarHeader_outside:
  assumes "j < 512" "j < 148 \<or> 154 \<le> j"
  shows "createTarHeader f sz d now ! j = header_fields f sz d now ! j"
  using assms by (simp add: createTarHeader_def Let_def nth_writeOctal_outside)

lemma header_name_field:
  assumes "j < 100" "split_name f = (name, pre)"
  shows "createTarHeader f sz d now ! j = (if j < length (ENC name) then ENC name ! j else 0)"
proof -
  have "header_fields f sz d now ! j = writeStr (replicate 512 0) name 0 100 ! j"
    using assms
    by (simp add: header_fields_def Let_def nth_writeOctal_outside nth_writeStr_outside)
  with assms(1) show ?thesis
    by (simp add: createTarHeader_outside nth_writeStr)
qed

lemma header_prefix_field:
  assumes "345 \<le> j" "j < 500" "split_name f = (name, pre)"
  shows "createTarHeader f sz d now ! j
           = (if j - 345 < length (ENC pre) then ENC pre ! (j - 345) else 0)"
proof -
  let ?b10 = "writeStr (writeStr ((writeStr (writeOctal (writeOctal (writeOctal (writeOctal
      (writeOctal (writeStr (replicate 512 0) name 0 100) 436 100 8) 0 108 8) 0 116 8) sz 124 12)
      now 136 12) (str ''        '') 148 8)[156 := (if d then 53 else 48)]) (str ''ustar'') 257 6)
      (str ''00'') 263 2"
  have z: "?b10 ! j = 0"
    using assms(1,2) by (simp add: nth_writeOctal_outside nth_writeStr_outside)
  have e: "ENC [] = []" by (simp add: ENC_def)
  have "header_fields f sz d now ! j
          = (if j - 345 < length (ENC pre) then ENC pre ! (j - 345) else 0)"
  proof (cases "pre = []")
    case True
    with z assms(3) show ?thesis by (simp add: header_fields_def Let_def e)
  next
    case False
    have "header_fields f sz d now ! j = writeStr ?b10 pre 345 155 ! j"
      using False assms(3) by (simp add: header_fields_def Let_def)
    with z assms(1,2) show ?thesis by (auto simp: nth_writeStr)
  qed
  with assms(1,2) show ?thesis by (simp add: createTarHeader_outside)
qed

lemma header_size_field:
  assumes "124 \<le> j" "j < 136" "sz < 8 ^ 11"
  shows "createTarHeader f sz d now ! j
           = (if j < 135 then ucast (octal_text sz 11 ! (j - 124)) else 0)"
proof -
  obtain name pre where s: "split_name f = (name, pre)" by (cases "split_name f")
  let ?b4 = "writeOctal (writeOctal (writeOctal (writeStr (replicate 512 0) name 0 100)
                436 100 8) 0 108 8) 0 116 8"
  have "header_fields f sz d now ! j = writeOctal ?b4 sz 124 12 ! j"
    using assms(1,2) s
    by (simp add: header_fields_def Let_def nth_writeOctal_outside nth_writeStr_outside)
  moreover have "?b4 ! j = 0"
    using assms(1,2) by (simp add: nth_writeOctal_outside nth_writeStr_outside)
  ultimately have "header_fields f sz d now ! j
      = (if j < 135 then ucast (octal_text sz 11 ! (j - 124)) else 0)"
    using nth_writeOctal[of j ?b4 sz 12 124] assms by simp
  with assms(1,2) show ?thesis by (simp add: createTarHeader_outside)
qed

lemma octal_digit_octet: "is_octal_digit c \<Longrightarrow> (ucast c :: byte) \<noteq> 0"
proof -
  assume a: "is_octal_digit c"
  then have "48 \<le> unat c" by (simp add: is_octal_digit_def word_le_nat_alt)
  with unat_ucast_byte[OF octal_digit_facts(1)[OF a]] have "unat (ucast c :: byte) \<noteq> 0" by simp
  then show ?thesis by (metis unat_0)
qed

lemma header_not_zero: "\<not> list_all (\<lambda>b. b = 0) (createTarHeader f sz d now)"
proof -
  obtain name pre where s: "split_name f = (name, pre)" by (cases "split_name f")
  let ?b1 = "writeStr (replicate 512 0) name 0 100"
  have "header_fields f sz d now ! 100 = writeOctal ?b1 436 100 8 ! 100"
    using s by (simp add: header_fields_def Let_def nth_writeOctal_outside nth_writeStr_outside)
  also have "\<dots> = ucast (octal_text 436 7 ! 0)"
    using nth_writeOctal[of 100 ?b1 436 8 100] by simp
  finally have h: "createTarHeader f sz d now ! 100 = ucast (octal_text 436 7 ! 0)"
    by (simp add: createTarHeader_outside)
  have "(436::nat) < 8 ^ 7" "(0::nat) < 7" by simp_all
  note f = octal_text_facts[OF this]
  from f(1,2) have "is_octal_digit (octal_text 436 7 ! 0)"
    by (simp add: list_all_length)
  from octal_digit_octet[OF this] h have "createTarHeader f sz d now ! 100 \<noteq> 0" by simp
  moreover have "createTarHeader f sz d now ! 100 \<in> set (createTarHeader f sz d now)"
    by (rule nth_mem) simp
  ultimately show ?thesis by (auto simp: list_all_iff)
qed

lemma replace_nul_zeros: "replace_nul (replicate k 0) = []"
proof (cases k)
  case 0
  then show ?thesis by simp
next
  case (Suc m)
  have "\<not> is_line_terminator 0" by (simp add: is_line_terminator_def)
  then have "dropWhile (\<lambda>d. \<not> is_line_terminator d) (replicate m 0) = []"
    by (simp add: dropWhile_eq_Nil_conv)
  with Suc show ?thesis by simp
qed

lemma replace_nul_plain: "plain_text s \<Longrightarrow> replace_nul (s @ replicate k 0) = s"
proof (induction s)
  case Nil
  show ?case by (simp add: replace_nul_zeros)
next
  case (Cons c s)
  then have "c \<noteq> 0" "plain_text s" by (auto simp: plain_text_def)
  with Cons.IH show ?case by simp
qed

lemma field_decode:
  assumes p: "plain_text s" and l: "length s \<le> n" and b: "a + n \<le> length h"
    and nth: "\<And>j. a \<le> j \<Longrightarrow> j < a + n \<Longrightarrow>
                h ! j = (if j - a < length (ENC s) then ENC s ! (j - a) else 0)"
  shows "replace_nul (DEC (slice h (int a) (int (a + n)))) = s"
proof -
  have e: "ENC s = map ucast s" using ENC_ascii[OF plain_text_ascii[OF p]] .
  have "slice h (int a) (int (a + n)) = map ucast (s @ replicate (n - length s) 0)"
  proof (rule nth_equalityI)
    show "length (slice h (int a) (int (a + n))) = length (map ucast (s @ replicate (n - length s) 0) :: bytes)"
      using length_slice_nat[of a "a + n" h] b l by simp
  next
    fix i assume "i < length (slice h (int a) (int (a + n)))"
    then have i: "i < n" using length_slice_nat[of a "a + n" h] b by simp
    have "slice h (int a) (int (a + n)) ! i = h ! (a + i)"
      using nth_slice_nat[of a "a + n" h i] b i by simp
    also have "\<dots> = (if i < length s then ucast (s ! i) else 0)"
      using nth[of "a + i"] i by (simp add: e)
    also have "\<dots> = (map ucast (s @ replicate (n - length s) 0) :: bytes) ! i"
      using i l by (simp add: nth_append)
    finally show "slice h (int a) (int (a + n)) ! i
                    = (map ucast (s @ replicate (n - length s) 0) :: bytes) ! i" .
  qed
  moreover have "ascii (s @ replicate (n - length s) 0)"
    using plain_text_ascii[OF p] by (auto simp: ascii_def list_all_iff)
  ultimately have "DEC (slice h (int a) (int (a + n))) = s @ replicate (n - length s) 0"
    by (simp only: DEC_ucast_ascii)
  then show ?thesis by (simp add: replace_nul_plain[OF p])
qed

lemma header_name_createTarHeader:
  assumes "split_name f = (name, pre)" "plain_text name" "plain_text pre"
    "length name \<le> 100" "length pre \<le> 155"
  shows "header_name (createTarHeader f sz d now)
           = (if pre \<noteq> [] then pre @ str ''/'' @ name else name)"
proof -
  let ?h = "createTarHeader f sz d now"
  have n: "replace_nul (DEC (slice ?h (int 0) (int (0 + 100)))) = name"
    by (rule field_decode[OF assms(2,4)]) (simp_all add: header_name_field[OF _ assms(1)])
  have p: "replace_nul (DEC (slice ?h (int 345) (int (345 + 155)))) = pre"
    by (rule field_decode[OF assms(3,5)]) (simp_all add: header_prefix_field[OF _ _ assms(1)])
  from n p show ?thesis by (simp add: header_name_def Let_def)
qed

lemma header_size_createTarHeader:
  assumes "sz < 8 ^ 11"
  shows "header_size (createTarHeader f sz d now) = Some (int sz)"
proof -
  let ?h = "createTarHeader f sz d now"
  let ?ds = "octal_text sz 11"
  have "(0::nat) < 11" by simp
  note f = octal_text_facts[OF assms this]
  have field: "slice ?h 124 136 = map ucast ?ds @ [0]"
  proof (rule nth_equalityI)
    show "length (slice ?h 124 136) = length (map ucast ?ds @ [0::byte])"
      using length_slice_nat[of 124 136 ?h] f(1) by simp
  next
    fix i assume "i < length (slice ?h 124 136)"
    then have i: "i < 12" using length_slice_nat[of 124 136 ?h] by simp
    have "slice ?h 124 136 ! i = ?h ! (124 + i)"
      using nth_slice_nat[of 124 136 ?h i] i by simp
    also have "\<dots> = (map ucast ?ds @ [0::byte]) ! i"
      using header_size_field[of "124 + i" sz f d now] i assms f(1)
      by (auto simp: nth_append)
    finally show "slice ?h 124 136 ! i = (map ucast ?ds @ [0::byte]) ! i" .
  qed
  have ne: "?ds \<noteq> []" using f(1) by auto
  show ?thesis
    unfolding header_size_def field
    using octal_field_decode(2)[OF f(2) ne] f(3) by simp
qed

subsection \<open>Long names\<close>

lemma lastIndexOf_found:
  assumes "lastIndexOf s c from = int i"
  shows "i < length s" "i \<le> from" "s ! i = c"
proof -
  let ?xs = "filter (\<lambda>i. s ! i = c) (rev [0 ..< min (Suc from) (length s)])"
  from assms obtain js where "?xs = i # js"
    by (auto simp: lastIndexOf_def split: list.splits)
  then have "i \<in> set ?xs" by simp
  then show "i < length s" "i \<le> from" "s ! i = c" by auto
qed

lemma split_name_found:
  assumes "100 < length path" "lastIndexOf path 0x2F 154 = int i" "length path \<le> i + 100"
  shows "split_name path = (drop (Suc i) path, take i path)"
proof -
  note f = lastIndexOf_found[OF assms(2)]
  have i: "0 < i" using assms(1,3) by simp
  have t: "take i path \<noteq> []" using i f(1) by auto
  have "slice path 0 (int i) = take i path" by (rule slice_take)
  moreover have "slice_from path (int i + 1) = drop (Suc i) path"
    using slice_from_drop[of path "Suc i"] by (simp add: add.commute)
  ultimately show ?thesis
    using assms t by (simp add: split_name_def Let_def)
qed

lemma lastIndexOf_last:
  assumes "c \<notin> set ys" "length xs + length ys \<le> from"
  shows "lastIndexOf (xs @ c # ys) c from = int (length xs)"
proof -
  let ?s = "xs @ c # ys"
  let ?P = "\<lambda>i. ?s ! i = c"
  have n: "min (Suc from) (length ?s) = length xs + Suc (length ys)" using assms(2) by simp
  have u: "[0 ..< length xs + Suc (length ys)]
             = [0 ..< length xs] @ length xs # [Suc (length xs) ..< length xs + Suc (length ys)]"
    by (metis add_Suc_right le_add1 le_imp_less_Suc upt_conv_Cons upt_add_eq_append zero_le)
  have e: "filter ?P [Suc (length xs) ..< length xs + Suc (length ys)] = []"
  proof -
    have "?s ! j \<noteq> c" if "Suc (length xs) \<le> j" "j < length xs + Suc (length ys)" for j
    proof -
      from that have "?s ! j = ys ! (j - Suc (length xs))"
        by (simp add: nth_append nth_Cons')
      moreover from that have "ys ! (j - Suc (length xs)) \<in> set ys"
        by (intro nth_mem) simp
      ultimately show ?thesis using assms(1) by metis
    qed
    then have "\<forall>j\<in>set [Suc (length xs) ..< length xs + Suc (length ys)]. \<not> ?s ! j = c"
      by (metis atLeastLessThan_iff set_upt)
    then show ?thesis unfolding filter_empty_conv by blast
  qed
  have P: "?s ! length xs = c" by simp
  have fl: "filter ?P [0 ..< length xs + Suc (length ys)]
               = filter ?P [0 ..< length xs] @ [length xs]"
    unfolding u by (simp only: filter_append filter.simps e P if_True simp_thms)
  have "filter ?P (rev [0 ..< min (Suc from) (length ?s)])
          = length xs # rev (filter ?P [0 ..< length xs])"
    by (simp only: n rev_filter[symmetric] fl rev_append rev.simps append.simps)
  then show ?thesis by (simp only: lastIndexOf_def list.case)
qed

lemma lastIndexOf_absent: "c \<notin> set s \<Longrightarrow> lastIndexOf s c from = - 1"
proof -
  assume a: "c \<notin> set s"
  have "filter (\<lambda>i. s ! i = c) (rev [0 ..< min (Suc from) (length s)]) = []"
    using a by (auto simp: filter_empty_conv)
  then show ?thesis by (simp add: lastIndexOf_def)
qed

lemma lastIndexOf_cases: "lastIndexOf s c from = - 1 \<or> (\<exists>i. lastIndexOf s c from = int i)"
  by (auto simp: lastIndexOf_def split: list.splits)

lemma filter_rev_upt_head:
  "j < n \<Longrightarrow> P j \<Longrightarrow> \<exists>i js. filter P (rev [0 ..< n]) = i # js \<and> j \<le> i"
proof (induction n)
  case 0
  then show ?case by simp
next
  case (Suc n)
  show ?case
  proof (cases "P n")
    case True
    with Suc.prems show ?thesis by simp
  next
    case False
    with Suc.prems have "j < n" by (metis less_Suc_eq)
    from Suc.IH[OF this Suc.prems(2)] False show ?thesis by simp
  qed
qed

lemma lastIndexOf_ge:
  assumes "j \<le> from" "j < length s" "s ! j = c"
  shows "\<exists>i. lastIndexOf s c from = int i \<and> j \<le> i"
proof -
  have "j < min (Suc from) (length s)" using assms(1,2) by simp
  from filter_rev_upt_head[of j _ "\<lambda>i. s ! i = c", OF this assms(3)]
  show ?thesis by (auto simp only: lastIndexOf_def list.case)
qed

lemma split_name_raw:
  assumes "100 < length path"
      and "lastIndexOf path 0x2F 154 = - 1 \<or> lastIndexOf path 0x2F 154 < int (length path) - 100"
  shows "split_name path = (drop (Suc (length path - 100)) path, take (length path - 100) path)"
proof -
  let ?k = "length path - 100"
  have k: "max 0 (int (length path) - 100) = int ?k" using assms(1) by simp
  have t: "take ?k path \<noteq> []" using assms(1) by auto
  have "slice path 0 (int ?k) = take ?k path" by (rule slice_take)
  moreover have "slice_from path (int ?k + 1) = drop (Suc ?k) path"
    using slice_from_drop[of path "Suc ?k"] by (simp add: add.commute)
  ultimately show ?thesis
    using assms t unfolding split_name_def Let_def k by auto
qed

text \<open>A prefix longer than its field is cut to the field's 155 octets.\<close>

lemma header_name_truncated:
  assumes "split_name f = (name, pre)" "plain_text name" "plain_text pre"
    "length name \<le> 100" "pre \<noteq> []"
  shows "header_name (createTarHeader f sz d now) = take 155 pre @ str ''/'' @ name"
proof -
  let ?h = "createTarHeader f sz d now"
  have n: "replace_nul (DEC (slice ?h (int 0) (int (0 + 100)))) = name"
    by (rule field_decode[OF assms(2,4)]) (simp_all add: header_name_field[OF _ assms(1)])
  have e: "ENC pre = map ucast pre" "ENC (take 155 pre) = map ucast (take 155 pre)"
    using ENC_ascii plain_text_ascii plain_text_take_drop[OF assms(3), of 155] assms(3)
    by blast+
  have p: "replace_nul (DEC (slice ?h (int 345) (int (345 + 155)))) = take 155 pre"
  proof (rule field_decode)
    show "plain_text (take 155 pre)" using plain_text_take_drop[OF assms(3)] by blast
    show "length (take 155 pre) \<le> 155" by simp
    show "345 + 155 \<le> length ?h" by simp
    fix j :: nat assume "345 \<le> j" "j < 345 + 155"
    then show "?h ! j = (if j - 345 < length (ENC (take 155 pre))
                         then ENC (take 155 pre) ! (j - 345) else 0)"
      using header_prefix_field[OF _ _ assms(1), of j sz d now] unfolding e by auto
  qed
  have "take 155 pre \<noteq> []" using assms(5) by (cases pre) simp_all
  with n p show ?thesis by (simp add: header_name_def Let_def)
qed

text \<open>
  The name that the reader decodes from the header of a long path, and the paths for
  which it is the path itself.
\<close>

lemma header_name_long:
  assumes "plain_text path" "100 < length path"
  shows "header_name (createTarHeader path sz d now)
           = take (min 155 (length (snd (split_name path)))) path @ str ''/'' @ fst (split_name path)"
    and "header_name (createTarHeader path sz d now) = path \<longleftrightarrow>
           (lastIndexOf path 0x2F 154 \<noteq> - 1
              \<and> int (length path) - 100 \<le> lastIndexOf path 0x2F 154)
           \<or> (length path = 255 \<and> path ! 155 = 0x2F)"
proof -
  let ?h = "header_name (createTarHeader path sz d now)"
  let ?i = "lastIndexOf path 0x2F 154"
  note q = plain_text_take_drop[OF assms(1)]
  have both: "?h = take (min 155 (length (snd (split_name path)))) path @ str ''/'' @ fst (split_name path)
     \<and> (?h = path \<longleftrightarrow> (?i \<noteq> - 1 \<and> int (length path) - 100 \<le> ?i)
                          \<or> (length path = 255 \<and> path ! 155 = 0x2F))"
  proof (cases "?i \<noteq> - 1 \<and> int (length path) - 100 \<le> ?i")
    case True
    with lastIndexOf_cases[of path "0x2F" 154] obtain i where
      i: "?i = int i" "length path \<le> i + 100" by auto
    note f = lastIndexOf_found[OF i(1)]
    note s = split_name_found[OF assms(2) i]
    have t: "take i path \<noteq> []" using assms(2) i(2) f(1) by auto
    have l: "length (drop (Suc i) path) \<le> 100" using i(2) by simp
    have "?h = take 155 (take i path) @ str ''/'' @ drop (Suc i) path"
      using header_name_truncated[OF s _ _ l t, of sz d now] q[of i] q[of "Suc i"] by simp
    then have h: "?h = take i path @ str ''/'' @ drop (Suc i) path" using f(2) by simp
    also have "\<dots> = path"
      using id_take_nth_drop[OF f(1)] f(3) by (simp add: str_def)
    finally have "?h = path" .
    moreover have "min 155 (length (snd (split_name path))) = i" using s f(1,2) by simp
    ultimately show ?thesis using True h s by simp
  next
    case False
    let ?k = "length path - 100"
    from False have r: "?i = - 1 \<or> ?i < int (length path) - 100" by auto
    note s = split_name_raw[OF assms(2) r]
    have t: "take ?k path \<noteq> []" using assms(2) by auto
    have l: "length (drop (Suc ?k) path) \<le> 100" by simp
    have "?h = take 155 (take ?k path) @ str ''/'' @ drop (Suc ?k) path"
      using header_name_truncated[OF s _ _ l t, of sz d now] q[of ?k] q[of "Suc ?k"] by simp
    then have h: "?h = take (min 155 ?k) path @ [0x2F] @ drop (Suc ?k) path"
      by (simp add: str_def min.commute)
    have m: "min 155 (length (snd (split_name path))) = min 155 ?k" using s assms(2) by simp
    have "?h = path \<longleftrightarrow> length path = 255 \<and> path ! 155 = 0x2F"
    proof
      assume a: "length path = 255 \<and> path ! 155 = 0x2F"
      then have "155 < length path" by simp
      from id_take_nth_drop[OF this] a h show "?h = path" by simp
    next
      assume e: "?h = path"
      then have "length (take (min 155 ?k) path @ [0x2F] @ drop (Suc ?k) path) = length path"
        using h by simp
      then have le: "?k \<le> 155" using assms(2) by simp
      then have h': "path = take ?k path @ [0x2F] @ drop (Suc ?k) path"
        using h e by (simp add: min_def)
      have kl: "?k < length path" using assms(2) by simp
      have "path ! ?k = (take ?k path @ [0x2F] @ drop (Suc ?k) path) ! ?k"
        using h' by simp
      also have "\<dots> = 0x2F" using kl by (simp add: nth_append)
      finally have sl: "path ! ?k = 0x2F" .
      have "?k = 155"
      proof (rule ccontr)
        assume "?k \<noteq> 155"
        with le have "?k \<le> 154" by simp
        from lastIndexOf_ge[OF this kl sl] obtain i where "?i = int i" "?k \<le> i" by blast
        with r assms(2) show False by auto
      qed
      with sl assms(2) show "length path = 255 \<and> path ! 155 = 0x2F" by simp
    qed
    then have "?h = path \<longleftrightarrow> (?i \<noteq> - 1 \<and> int (length path) - 100 \<le> ?i)
                          \<or> (length path = 255 \<and> path ! 155 = 0x2F)"
      using False by blast
    moreover have "?h = take (min 155 (length (snd (split_name path)))) path
                        @ str ''/'' @ fst (split_name path)"
      unfolding m using h s by (simp add: str_def)
    ultimately show ?thesis by blast
  qed
  from both show "?h = take (min 155 (length (snd (split_name path)))) path @ str ''/'' @ fst (split_name path)"
    by blast
  from both show "?h = path \<longleftrightarrow> (?i \<noteq> - 1 \<and> int (length path) - 100 \<le> ?i)
                          \<or> (length path = 255 \<and> path ! 155 = 0x2F)"
    by blast
qed


text \<open>
  C4 (as amended). For a path of ASCII characters other than NUL, longer than 100. A \<open>/\<close>
  qualifies when it is the last one at or before offset 154 and leaves at most 99
  characters after it. If one qualifies, the writer splits at it: the prefix is what
  precedes it, at most 155 octets, and the name what follows it. Otherwise the writer
  splits at offset \<open>length - 100\<close>: the prefix is what precedes that offset, the name the 99
  characters after it, and the character at the offset is dropped. In both cases the name
  has at most 100 octets, and the reader decodes the first 155 characters of the prefix,
  a \<open>/\<close>, and the name. That is the path itself exactly when a \<open>/\<close> qualifies, or when the
  path has 255 characters and the one at offset 155 is a \<open>/\<close>.
\<close>

theorem long_name_split:
  assumes "plain_text path" "100 < length path"
  shows "(let i = lastIndexOf path 0x2F 154;
              qualifies = (i \<noteq> - 1 \<and> int (length path) - 100 \<le> i);
              k = (if qualifies then nat i else length path - 100)
          in split_name path = (drop (Suc k) path, take k path)
             \<and> length (ENC (drop (Suc k) path)) \<le> 100
             \<and> (qualifies \<longrightarrow> path ! k = 0x2F \<and> length (ENC (take k path)) \<le> 155)
             \<and> header_name (createTarHeader path sz d now)
                 = take (min 155 k) path @ str ''/'' @ drop (Suc k) path
             \<and> (header_name (createTarHeader path sz d now) = path
                  \<longleftrightarrow> qualifies \<or> (length path = 255 \<and> path ! 155 = 0x2F)))"
proof -
  let ?i = "lastIndexOf path 0x2F 154"
  let ?q = "?i \<noteq> - 1 \<and> int (length path) - 100 \<le> ?i"
  let ?k = "if ?q then nat ?i else length path - 100"
  note q = plain_text_take_drop[OF assms(1)]
  note h = header_name_long[OF assms, of sz d now]
  have s: "split_name path = (drop (Suc ?k) path, take ?k path)"
  proof (cases ?q)
    case True
    with lastIndexOf_cases[of path "0x2F" 154] obtain i where
      i: "?i = int i" "length path \<le> i + 100" by auto
    from split_name_found[OF assms(2) i] True i(1) show ?thesis by simp
  next
    case False
    then have "?i = - 1 \<or> ?i < int (length path) - 100" by auto
    from split_name_raw[OF assms(2) this] show ?thesis by (simp only: False if_False)
  qed
  have n: "length (ENC (drop (Suc ?k) path)) \<le> 100"
  proof -
    have "length path \<le> ?k + 100"
      using lastIndexOf_cases[of path "0x2F" 154] by auto
    then have "length (drop (Suc ?k) path) \<le> 100" by simp
    with q[of "Suc ?k"] show ?thesis by (simp add: length_ENC_ascii plain_text_ascii)
  qed
  have p: "path ! ?k = 0x2F \<and> length (ENC (take ?k path)) \<le> 155" if ?q
  proof -
    from that lastIndexOf_cases[of path "0x2F" 154] obtain i where
      i: "?i = int i" by auto
    note f = lastIndexOf_found[OF i]
    have "length (take i path) \<le> 155" using f(2) by simp
    with q[of i] have "length (ENC (take i path)) \<le> 155"
      by (simp add: length_ENC_ascii plain_text_ascii)
    with f(3) that i show ?thesis by simp
  qed
  have m: "header_name (createTarHeader path sz d now)
             = take (min 155 ?k) path @ str ''/'' @ drop (Suc ?k) path"
  proof -
    have "?k \<le> length path"
    proof (cases ?q)
      case True
      with lastIndexOf_cases[of path "0x2F" 154] obtain i where i: "?i = int i" by auto
      from lastIndexOf_found(1)[OF i] True i show ?thesis by simp
    next
      case False
      show ?thesis by (simp only: False if_False diff_le_self)
    qed
    then have "length (take ?k path) = ?k" by simp
    then have "length (snd (split_name path)) = ?k" "fst (split_name path) = drop (Suc ?k) path"
      by (simp_all only: s fst_conv snd_conv)
    then show ?thesis by (simp only: h(1))
  qed
  from s n p m h(2) show ?thesis unfolding Let_def by blast
qed

theorem long_name_split_witness:
  "plain_text sample_long_path \<and> 100 < length sample_long_path
   \<and> lastIndexOf sample_long_path 0x2F 154 = 60
   \<and> split_name sample_long_path = (replicate 50 0x62, replicate 60 0x61)
   \<and> header_name (createTarHeader sample_long_path 3 False 5) = sample_long_path"
proof -
  have a: "plain_text sample_long_path"
    by (auto simp: sample_long_path_def plain_text_def list_all_iff)
  have b: "100 < length sample_long_path" by (simp add: sample_long_path_def)
  have c: "lastIndexOf sample_long_path 0x2F 154 = 60"
    unfolding sample_long_path_def
    using lastIndexOf_last[of "0x2F" "replicate 50 0x62" "replicate 60 0x61" 154] by simp
  have d: "length sample_long_path = 111" by (simp add: sample_long_path_def)
  from long_name_split[OF a b, of 3 False 5] a b c show ?thesis
    unfolding Let_def c d by (simp add: sample_long_path_def str_def)
qed

theorem long_name_counterexample:
  "header_name (createTarHeader (replicate 101 0x61) 0 False 0)
     = [0x61] @ str ''/'' @ replicate 99 0x61
   \<and> header_name (createTarHeader (replicate 101 0x61) 0 False 0) \<noteq> replicate 101 0x61"
proof -
  let ?p = "replicate 101 (0x61 :: jschar)"
  have "lastIndexOf ?p 0x2F 154 = - 1" by (rule lastIndexOf_absent) simp
  moreover have "slice ?p 0 1 = [0x61]" using slice_take[of ?p 1] by simp
  moreover have "slice_from ?p 2 = replicate 99 0x61" using slice_from_drop[of ?p 2] by simp
  ultimately have s: "split_name ?p = (replicate 99 0x61, [0x61])"
    by (simp add: split_name_def Let_def)
  have "header_name (createTarHeader ?p 0 False 0) = [0x61] @ str ''/'' @ replicate 99 0x61"
    using header_name_createTarHeader[OF s, of 0 False 0]
    by (auto simp: plain_text_def list_all_iff)
  moreover have "[0x61] @ str ''/'' @ replicate 99 0x61 \<noteq> ?p"
  proof
    assume "[0x61] @ str ''/'' @ replicate 99 0x61 = ?p"
    then have "([0x61] @ str ''/'' @ replicate 99 0x61) ! 1 = ?p ! 1" by simp
    then show False by (simp add: str_def)
  qed
  ultimately show ?thesis by simp
qed

section \<open>The container reader\<close>

lemma tar_loop_header:
  assumes "reader_ok r" "pending r = header @ rest" "length header = 512"
  shows "\<exists>r1 r2. ensure 512 r = Inr (True, r1) \<and> consume 512 r1 = (header, r2)
            \<and> reader_ok r2 \<and> pending r2 = rest \<and> ending r2 = ending r"
proof -
  have "512 \<le> int (length (pending r))" by (simp add: assms)
  from ensure_enough[OF assms(1) this] obtain r1 where
    r1: "ensure 512 r = Inr (True, r1)" "pending r1 = pending r" "ending r1 = ending r"
        "reader_ok r1" "512 \<le> int (length (buffer r1))" by blast
  obtain x r2 where c: "consume 512 r1 = (x, r2)" by (cases "consume 512 r1")
  have "x = header" "pending r2 = rest" "ending r2 = ending r" "reader_ok r2"
    using consume_enough[of 512 r1] r1 c assms(2,3) by simp_all
  with r1(1) c show ?thesis by blast
qed

text \<open>
  C9. When the next 512 octets of the source are a header whose octets are all zero, or
  whose size field does not decode to a number, the parse loop stops there: it completes
  normally, reports no error, and hands over nothing beyond what it had already, whatever
  the collaborators and their state are.
\<close>

theorem malformed_size_ends_archive:
  assumes "reader_ok r" "pending r = header @ rest" "length header = 512"
      and "list_all (\<lambda>b. b = 0) header \<or> header_size header = None"
  shows "tar_loop C opfs r c acc = (acc, Complete)"
proof -
  from tar_loop_header[OF assms(1-3)] obtain r1 r2 where
    "ensure 512 r = Inr (True, r1)" "consume 512 r1 = (header, r2)" by blast
  with assms(4) show ?thesis
    by (subst tar_loop.simps) (auto simp: Let_def)
qed

lemma trim_head:
  assumes "\<not> is_white_space c"
  shows "\<exists>zs. trim (c # cs) = c # zs"
proof -
  have "dropWhile is_white_space (rev cs @ [c])
          = (if \<forall>x\<in>set (rev cs). is_white_space x then [c]
             else dropWhile is_white_space (rev cs) @ [c])"
    using assms by (simp add: dropWhile_append)
  then obtain ys where "dropWhile is_white_space (rev cs @ [c]) = ys @ [c]"
    by (metis append_Nil)
  then show ?thesis using assms by (simp add: trim_def)
qed

lemma parseInt8_not_a_number:
  assumes "\<not> is_white_space c" "\<not> is_octal_digit c" "c \<noteq> 0x2D" "c \<noteq> 0x2B"
  shows "parseInt8 (trim (c # cs)) = None"
proof -
  from trim_head[OF assms(1)] obtain zs where "trim (c # cs) = c # zs" by blast
  with assms show ?thesis by (simp add: parseInt8_def Let_def)
qed

lemma sample_bad_header_size: "header_size sample_bad_header = None"
proof -
  have "slice sample_bad_header 124 136 = [0x7A] @ replicate 11 0"
    using slice_take_drop[of 124 136 sample_bad_header]
    by (simp add: sample_bad_header_def)
  moreover have "DEC ([0x7A] @ replicate 11 0) = map ucast ([0x7A] @ replicate 11 (0::byte))"
    by (rule DEC_ascii) (auto simp: list_all_iff)
  ultimately have "DEC (slice sample_bad_header 124 136) = 0x7A # replicate 11 0" by simp
  then show ?thesis
    using parseInt8_not_a_number[of "0x7A" "replicate 11 0"]
    by (simp add: header_size_def is_white_space_def is_octal_digit_def)
qed

theorem malformed_size_ends_archive_witness:
  "reader_ok (reader_new ([sample_bad_header, [1, 2, 3]], Closed))
   \<and> pending (reader_new ([sample_bad_header, [1, 2, 3]], Closed)) = sample_bad_header @ [1, 2, 3]
   \<and> length sample_bad_header = 512
   \<and> header_size sample_bad_header = None
   \<and> tar_loop accepting True (reader_new ([sample_bad_header, [1, 2, 3]], Closed)) () []
      = ([], Complete)
   \<and> list_all (\<lambda>b. b = 0) (replicate 512 (0::byte))
   \<and> tar_loop accepting True (reader_new ([replicate 512 0, [1, 2, 3]], Closed)) () []
      = ([], Complete)"
proof -
  let ?r = "reader_new ([sample_bad_header, [1, 2, 3]], Closed)"
  let ?z = "reader_new ([replicate 512 0, [1, 2, 3]], Closed)"
  have a: "reader_ok ?r" "reader_ok ?z" by (simp_all add: reader_new_def reader_ok_def)
  have b: "pending ?r = sample_bad_header @ [1, 2, 3]" "pending ?z = replicate 512 0 @ [1, 2, 3]"
    by (simp_all add: reader_new_def pending_def)
  have c: "length sample_bad_header = 512" "length (replicate 512 (0::byte)) = 512"
    by (simp_all add: sample_bad_header_def)
  have d: "list_all (\<lambda>b. b = 0) (replicate 512 (0::byte))" by (simp add: list_all_iff)
  from malformed_size_ends_archive[OF a(1) b(1) c(1), of accepting True "()" "[]"]
       malformed_size_ends_archive[OF a(2) b(2) c(2), of accepting True "()" "[]"]
       sample_bad_header_size a b c d
  show ?thesis by simp
qed

section \<open>Writing and reading an archive\<close>

lemma pad_mod:
  fixes q n :: nat
  assumes "0 < n"
  shows "(q + (n - q mod n) mod n) mod n = 0"
proof (cases "q mod n = 0")
  case True
  then show ?thesis by simp
next
  case False
  have r: "q mod n < n" using assms by simp
  then have "(n - q mod n) mod n = n - q mod n" using False by simp
  moreover have "q + (n - q mod n) = n * (q div n) + n"
  proof -
    have "q = n * (q div n) + q mod n" by simp
    then have "q + (n - q mod n) = n * (q div n) + (q mod n + (n - q mod n))"
      by (metis add.assoc)
    with r show ?thesis by simp
  qed
  ultimately show ?thesis by simp
qed

lemma shift_mod:
  fixes a b n :: nat
  assumes "a mod n = 0"
  shows "(a + n + b) mod n = b mod n"
proof -
  from assms have "n dvd a" by (simp add: dvd_eq_mod_eq_0)
  then obtain k where "a = n * k" by (rule dvdE)
  then show ?thesis by (simp add: add.assoc)
qed

subsection \<open>What the writer produces\<close>

lemma writeEntry_bytes:
  assumes "pos w mod 512 = 0"
  shows "concat (written (writeEntry w path d now))
           = concat (written w) @ entry_bytes (path, d, now)"
    and "pos (writeEntry w path d now) mod 512 = 0"
proof -
  let ?b = "data_bytes d"
  let ?h = "createTarHeader path (length ?b) False now"
  let ?w2 = "write (write w ?h) ?b"
  have m: "(pos w + 512 + length ?b) mod 512 = length ?b mod 512"
    using assms by (rule shift_mod)
  have w: "writeEntry w path d now = pad ?w2"
    by (simp add: writeEntry_def Let_def data_bytes_def)
  show "concat (written (writeEntry w path d now))
           = concat (written w) @ entry_bytes (path, d, now)"
    unfolding w by (simp add: pad_def Let_def m write_def entry_bytes_def)
  show "pos (writeEntry w path d now) mod 512 = 0"
  proof -
    let ?q = "pos w + 512 + length ?b"
    have "pos (pad ?w2) = ?q + (512 - ?q mod 512) mod 512"
      by (simp add: pad_def Let_def write_def)
    then show ?thesis unfolding w using pad_mod[of 512 ?q] by simp
  qed
qed

lemma writeEntries_bytes:
  "pos w mod 512 = 0 \<Longrightarrow>
     concat (written (writeEntries w es)) = concat (written w) @ concat (map entry_bytes es)"
proof (induction es arbitrary: w)
  case Nil
  show ?case by simp
next
  case (Cons e es)
  obtain path d now where e: "e = (path, d, now)" by (cases e)
  from Cons.IH[OF writeEntry_bytes(2)[OF Cons.prems, of path d now]]
       writeEntry_bytes(1)[OF Cons.prems, of path d now]
  show ?case by (simp add: e)
qed

lemma encode_bytes:
  "concat (encode es) = concat (map entry_bytes es) @ replicate 1024 0"
  using writeEntries_bytes[of TarWriter_new es]
  by (simp add: encode_def close_def write_def TarWriter_new_def)

subsection \<open>Reading with enough octets at hand\<close>

lemma skipBytes_enough:
  assumes "reader_ok r" "pending r = xs @ rest"
  shows "\<exists>r'. skipBytes (int (length xs)) r = Inr r' \<and> reader_ok r' \<and> pending r' = rest
              \<and> ending r' = ending r"
  using skipBytes_spec[where n = "int (length xs)" and r = r] assms
  by (cases "skipBytes (int (length xs)) r") simp_all

lemma readToMemory_enough:
  assumes "reader_ok r" "pending r = xs @ rest"
  shows "\<exists>r'. readToMemory (int (length xs)) r = Inr (xs, r') \<and> reader_ok r' \<and> pending r' = rest
              \<and> ending r' = ending r"
  using readToMemory_spec[where n = "int (length xs)" and r = r] assms
  by (cases "readToMemory (int (length xs)) r") auto

lemma streamToFile_enough:
  assumes "reader_ok r" "pending r = xs @ rest"
      and "\<forall>v c. write_file C v c \<noteq> None" "\<forall>c. close_file C c \<noteq> None"
  shows "\<exists>w r' c'. streamToFile C (int (length xs)) r c = Inr (w, r', c') \<and> concat w = xs
              \<and> reader_ok r' \<and> pending r' = rest \<and> ending r' = ending r"
proof (cases "streamToFile C (int (length xs)) r c")
  case (Inl e)
  from streamToFile_Inl[OF assms(3,4) _ Inl] assms(2) show ?thesis by simp
next
  case (Inr q)
  obtain w r' c' where q: "q = (w, r', c')" by (cases q)
  from streamToFile_Inr[OF _ Inr[unfolded q]] assms(1,2) Inr q show ?thesis by simp
qed

lemma js_rem_nonneg: "0 \<le> a \<Longrightarrow> 0 < b \<Longrightarrow> js_rem a b = a mod b"
  by (cases "a = 0") (simp_all add: js_rem_def)

lemma padding_nat:
  "js_rem (512 - js_rem (int n) 512) 512 = int ((512 - n mod 512) mod 512)"
proof -
  have a: "js_rem (int n) 512 = int (n mod 512)"
    by (simp add: js_rem_nonneg zmod_int)
  have "n mod 512 < 512" by simp
  then have b: "512 - int (n mod 512) = int (512 - n mod 512)" by simp
  show ?thesis unfolding a b by (simp add: js_rem_nonneg zmod_int)
qed

lemma storable_header_name:
  assumes "storable path"
  shows "header_name (createTarHeader path sz d now) = path"
proof (cases "length path \<le> 100")
  case True
  then have s: "split_name path = (path, [])" by (simp add: split_name_def)
  from assms have p: "plain_text path" by (simp add: storable_def)
  from header_name_createTarHeader[OF s p _ True, of sz d now] show ?thesis
    by (simp add: plain_text_def)
next
  case False
  then have g: "100 < length path" by simp
  from assms have p: "plain_text path" by (simp add: storable_def)
  from header_name_long(2)[OF p g, of sz d now] assms False show ?thesis
    by (simp add: storable_def)
qed

lemma tar_loop_entry:
  assumes ok: "reader_ok r" and p: "pending r = entry_bytes (path, d, now) @ rest"
    and st: "storable path" and sz: "length (data_bytes d) < 8 ^ 11"
    and ac: "accepts C opfs (path, d, now)"
  shows "\<exists>r' c'. tar_loop C opfs r c acc
                   = tar_loop C opfs r' c' (acc @ delivered opfs [(path, d, now)])
            \<and> reader_ok r' \<and> pending r' = rest \<and> ending r' = ending r"
proof -
  let ?b = "data_bytes d"
  let ?n = "length ?b"
  let ?h = "createTarHeader path ?n False now"
  let ?pad = "replicate ((512 - ?n mod 512) mod 512) (0::byte)"
  have p': "pending r = ?h @ (?b @ ?pad @ rest)" by (simp add: p entry_bytes_def)
  from tar_loop_header[OF ok p'] obtain r1 r2 where
    h: "ensure 512 r = Inr (True, r1)" "consume 512 r1 = (?h, r2)" "reader_ok r2"
       "pending r2 = ?b @ ?pad @ rest" "ending r2 = ending r"
    by auto
  note nz = header_not_zero[of path ?n False now]
  note nm = storable_header_name[OF st, of ?n False now]
  note hs = header_size_createTarHeader[OF sz, of path False now]
  note pd = padding_nat[of ?n]
  have lp: "int ((512 - ?n mod 512) mod 512) = int (length ?pad)" by simp
  have unfold: "tar_loop C opfs r c acc =
      (if int ?n = 0 then
         (case skipBytes (int (length ?pad)) r2 of
            Inl e \<Rightarrow> (acc, Failed e) | Inr r3 \<Rightarrow> tar_loop C opfs r3 c acc)
       else if startsWith path (str ''data/'') then
         (case readToMemory (int ?n) r2 of
            Inl e \<Rightarrow> (acc, Failed e)
          | Inr (dd, r3) \<Rightarrow>
              (case restore_system C path dd c of
                 None \<Rightarrow> (acc, Failed CollaboratorFailure)
               | Some c1 \<Rightarrow>
                   (case skipBytes (int (length ?pad)) r3 of
                      Inl e \<Rightarrow> (acc @ [(path, int ?n, dd)], Failed e)
                    | Inr r4 \<Rightarrow> tar_loop C opfs r4 c1 (acc @ [(path, int ?n, dd)]))))
       else if opfs then
         (case open_file C (cleanName path) c of
            None \<Rightarrow> (acc, Failed CollaboratorFailure)
          | Some c1 \<Rightarrow>
              (case streamToFile C (int ?n) r2 c1 of
                 Inl e \<Rightarrow> (acc, Failed e)
               | Inr (w, r3, c2) \<Rightarrow>
                   (case skipBytes (int (length ?pad)) r3 of
                      Inl e \<Rightarrow> (acc @ [(path, int ?n, concat w)], Failed e)
                    | Inr r4 \<Rightarrow> tar_loop C opfs r4 c2 (acc @ [(path, int ?n, concat w)]))))
       else
         (case skipBytes (int ?n) r2 of
            Inl e \<Rightarrow> (acc, Failed e)
          | Inr r3 \<Rightarrow>
              (case skipBytes (int (length ?pad)) r3 of
                 Inl e \<Rightarrow> (acc, Failed e) | Inr r4 \<Rightarrow> tar_loop C opfs r4 c acc)))"
    by (subst tar_loop.simps) (simp add: h(1,2) nz nm hs pd lp Let_def del: length_replicate)
  consider (empty) "?n = 0"
    | (system) "?n \<noteq> 0" "startsWith path (str ''data/'')"
    | (streamed) "?n \<noteq> 0" "\<not> startsWith path (str ''data/'')" "opfs"
    | (skipped) "?n \<noteq> 0" "\<not> startsWith path (str ''data/'')" "\<not> opfs"
    by blast
  then show ?thesis
  proof cases
    case empty
    then have e: "pending r2 = ?pad @ rest" using h(4) by simp
    from skipBytes_enough[OF h(3) e] obtain r3 where
      "skipBytes (int (length ?pad)) r2 = Inr r3" "reader_ok r3" "pending r3 = rest"
      "ending r3 = ending r2" by blast
    with empty h(5) show ?thesis
      unfolding unfold by (intro exI[of _ r3] exI[of _ c]) (simp add: delivered_def)
  next
    case system
    from readToMemory_enough[OF h(3,4)] obtain r3 where
      r3: "readToMemory (int ?n) r2 = Inr (?b, r3)" "reader_ok r3" "pending r3 = ?pad @ rest"
          "ending r3 = ending r2" by blast
    from ac system obtain c1 where c1: "restore_system C path ?b c = Some c1"
      by (auto simp: accepts_def)
    from skipBytes_enough[OF r3(2,3)] obtain r4 where
      "skipBytes (int (length ?pad)) r3 = Inr r4" "reader_ok r4" "pending r4 = rest"
      "ending r4 = ending r3" by blast
    with system r3 c1 h(5) show ?thesis
      unfolding unfold by (intro exI[of _ r4] exI[of _ c1]) (simp add: delivered_def)
  next
    case streamed
    from ac streamed have op: "\<forall>c. open_file C (cleanName path) c \<noteq> None"
      and sink: "\<forall>v c. write_file C v c \<noteq> None" "\<forall>c. close_file C c \<noteq> None"
      by (simp_all add: accepts_def)
    from op obtain c1 where c1: "open_file C (cleanName path) c = Some c1" by blast
    from streamToFile_enough[OF h(3,4) sink, of c1] obtain w r3 c2 where
      r3: "streamToFile C (int ?n) r2 c1 = Inr (w, r3, c2)" "concat w = ?b" "reader_ok r3"
          "pending r3 = ?pad @ rest" "ending r3 = ending r2" by blast
    from skipBytes_enough[OF r3(3,4)] obtain r4 where
      "skipBytes (int (length ?pad)) r3 = Inr r4" "reader_ok r4" "pending r4 = rest"
      "ending r4 = ending r3" by blast
    with streamed r3 c1 h(5) show ?thesis
      unfolding unfold by (intro exI[of _ r4] exI[of _ c2]) (simp add: delivered_def)
  next
    case skipped
    from skipBytes_enough[OF h(3,4)] obtain r3 where
      r3: "skipBytes (int ?n) r2 = Inr r3" "reader_ok r3" "pending r3 = ?pad @ rest"
          "ending r3 = ending r2" by blast
    from skipBytes_enough[OF r3(2,3)] obtain r4 where
      "skipBytes (int (length ?pad)) r3 = Inr r4" "reader_ok r4" "pending r4 = rest"
      "ending r4 = ending r3" by blast
    with skipped r3 h(5) show ?thesis
      unfolding unfold by (intro exI[of _ r4] exI[of _ c]) (simp add: delivered_def)
  qed
qed

lemma delivered_Cons: "delivered opfs (e # es) = delivered opfs [e] @ delivered opfs es"
  by (simp add: delivered_def)

lemma tar_loop_entries:
  "reader_ok r \<Longrightarrow> pending r = concat (map entry_bytes es) @ rest
   \<Longrightarrow> list_all (\<lambda>(path, d, now). storable path \<and> length (data_bytes d) < 8 ^ 11) es
   \<Longrightarrow> list_all (accepts C opfs) es
   \<Longrightarrow> \<exists>r' c'. tar_loop C opfs r c acc = tar_loop C opfs r' c' (acc @ delivered opfs es)
            \<and> reader_ok r' \<and> pending r' = rest \<and> ending r' = ending r"
proof (induction es arbitrary: r c acc)
  case Nil
  then show ?case by (auto simp: delivered_def)
next
  case (Cons e es)
  obtain path d now where e: "e = (path, d, now)" by (cases e)
  from Cons.prems(3) e have s: "storable path" "length (data_bytes d) < 8 ^ 11"
    and rest: "list_all (\<lambda>(path, d, now). storable path \<and> length (data_bytes d) < 8 ^ 11) es"
    by simp_all
  from Cons.prems(4) e have a: "accepts C opfs (path, d, now)" "list_all (accepts C opfs) es"
    by simp_all
  have p: "pending r = entry_bytes (path, d, now) @ (concat (map entry_bytes es) @ rest)"
    using Cons.prems(2) e by simp
  from tar_loop_entry[OF Cons.prems(1) p s a(1), of c acc] obtain r1 c1 where
    r1: "tar_loop C opfs r c acc = tar_loop C opfs r1 c1 (acc @ delivered opfs [(path, d, now)])"
        "reader_ok r1" "pending r1 = concat (map entry_bytes es) @ rest" "ending r1 = ending r"
    by blast
  from Cons.IH[OF r1(2,3) rest a(2), of c1 "acc @ delivered opfs [(path, d, now)]"] r1(1,4)
  show ?case unfolding e delivered_Cons[of opfs "(path, d, now)" es] by auto
qed

lemma tar_loop_zero_header:
  assumes "reader_ok r" "pending r = replicate 512 0 @ rest"
  shows "tar_loop C opfs r c acc = (acc, Complete)"
proof -
  from tar_loop_header[OF assms, simplified] obtain r1 r2 where
    "ensure 512 r = Inr (True, r1)" "consume 512 r1 = (replicate 512 0, r2)" by blast
  then show ?thesis
    by (subst tar_loop.simps) (simp add: list_all_iff)
qed

lemma tar_loop_archive:
  assumes "list_all (\<lambda>(path, d, now). storable path \<and> length (data_bytes d) < 8 ^ 11) es"
      and "list_all (accepts C opfs) es"
      and "concat file = concat (encode es)"
  shows "tar_loop C opfs (reader_new (file, Closed)) c [] = (delivered opfs es, Complete)"
proof -
  let ?r = "reader_new (file, Closed)"
  have ok: "reader_ok ?r" by (simp add: reader_new_def reader_ok_def)
  have "replicate 1024 (0::byte) = replicate 512 0 @ replicate 512 0"
    by (simp add: replicate_add[symmetric])
  then have p: "pending ?r = concat (map entry_bytes es) @ (replicate 512 0 @ replicate 512 0)"
    by (simp add: reader_new_def pending_def assms(3) encode_bytes)
  from tar_loop_entries[OF ok p assms(1,2), of c "[]"] obtain r' c' where
    r': "tar_loop C opfs ?r c [] = tar_loop C opfs r' c' (delivered opfs es)"
        "reader_ok r'" "pending r' = replicate 512 0 @ replicate 512 0"
    by auto
  from tar_loop_zero_header[OF r'(2,3)] r'(1) show ?thesis by simp
qed


lemma storable_short: "plain_text path \<Longrightarrow> length path \<le> 100 \<Longrightarrow> storable path"
  by (simp add: storable_def)

lemma accepts_accepting: "accepts accepting opfs e"
  by (cases e)
     (simp add: accepts_def accepting_def restore_system_def split: if_splits)



section \<open>The format sniff\<close>

subsection \<open>Only the signature decodes to the signature\<close>

lemma sub_mod:
  fixes b n q :: nat
  assumes "n * q \<le> b" "b < n * q + n"
  shows "b mod n = b - n * q"
proof -
  from assms(1) have "b = n * q + (b - n * q)" by simp
  then have "b mod n = (n * q + (b - n * q)) mod n" by simp
  also have "\<dots> = (b - n * q) mod n" by (simp only: mod_mult_self4)
  also have "\<dots> = b - n * q" using assms by (intro mod_less) linarith
  finally show ?thesis .
qed

lemma continuation_mod: "128 \<le> b \<Longrightarrow> b \<le> 191 \<Longrightarrow> b mod 64 = b - (128::nat)"
  using sub_mod[of 64 2 b] by simp

lemma lead2_mod: "192 \<le> b \<Longrightarrow> b \<le> 223 \<Longrightarrow> b mod 32 = b - (192::nat)"
  using sub_mod[of 32 6 b] by simp

lemma lead3_mod: "224 \<le> b \<Longrightarrow> b \<le> 239 \<Longrightarrow> b mod 16 = b - (224::nat)"
  using sub_mod[of 16 14 b] by simp

lemma lead4_mod: "240 \<le> b \<Longrightarrow> b \<le> 247 \<Longrightarrow> b mod 8 = b - (240::nat)"
  using sub_mod[of 8 30 b] by simp

lemma first_octet_ok:
  assumes "b < 256"
  shows "utf8_ok (snd (first_octet b))"
    and "\<forall>c\<in>set (fst (first_octet b)). c < 0x110000"
    and "filter (\<lambda>c. c < 0x80) (fst (first_octet b)) = filter (\<lambda>c. c < 0x80) [b]"
    and "length (fst (first_octet b)) + utf8_pending (snd (first_octet b)) \<le> 1"
proof -
  consider (a) "b \<le> 0x7F" | (b) "0xC2 \<le> b" "b \<le> 0xDF" | (c) "0xE0 \<le> b" "b \<le> 0xEF"
    | (d) "0xF0 \<le> b" "b \<le> 0xF4" | (e) "0x80 \<le> b" "b < 0xC2" | (f) "0xF4 < b"
    by linarith
  then have "utf8_ok (snd (first_octet b))
      \<and> (\<forall>c\<in>set (fst (first_octet b)). c < 0x110000)
      \<and> filter (\<lambda>c. c < 0x80) (fst (first_octet b)) = filter (\<lambda>c. c < 0x80) [b]
      \<and> length (fst (first_octet b)) + utf8_pending (snd (first_octet b)) \<le> 1"
  proof cases
    case a
    then show ?thesis by (simp add: first_octet_def utf8_ok_def utf8_init_def utf8_pending_def)
  next
    case b
    then have m: "b mod 32 = b - 192" by (intro lead2_mod) simp_all
    have f: "first_octet b = ([], (b - 192, 1, 0x80, 0xBF))"
      using b by (simp add: first_octet_def m)
    have "2 \<le> b - 192" "b - 192 < 0x4400" using b by linarith+
    with b show ?thesis unfolding f by (simp add: utf8_ok_def utf8_pending_def)
  next
    case c
    then have m: "b mod 16 = b - 224" by (intro lead3_mod) simp_all
    have f: "first_octet b = ([], (b - 224, 2, if b = 0xE0 then 0xA0 else 0x80,
                                    if b = 0xED then 0x9F else 0xBF))"
      using c by (simp add: first_octet_def m)
    have "b \<noteq> 224 \<longrightarrow> Suc 0 \<le> b - 224" "(b - 224) * 64 + (191 - 128) < 0x4400"
         "(b - 224) * 64 + (159 - 128) < 0x4400"
      using c by linarith+
    with c show ?thesis unfolding f by (simp add: utf8_ok_def utf8_pending_def)
  next
    case d
    then have m: "b mod 8 = b - 240" by (intro lead4_mod) simp_all
    have f: "first_octet b = ([], (b - 240, 3, if b = 0xF0 then 0x90 else 0x80,
                                    if b = 0xF4 then 0x8F else 0xBF))"
      using d by (simp add: first_octet_def m)
    have "b \<noteq> 240 \<longrightarrow> Suc 0 \<le> b - 240" using d by linarith
    moreover have v: "b = 240 \<or> b = 241 \<or> b = 242 \<or> b = 243 \<or> b = 244" using d by linarith
    then have "((b - 240) * 64 + (143 - 128)) * 64 + 63 < 0x4400" by auto
    moreover have "b \<noteq> 0xF4 \<longrightarrow> ((b - 240) * 64 + (191 - 128)) * 64 + 63 < 0x4400"
      using v by auto
    ultimately show ?thesis using d unfolding f by (simp add: utf8_ok_def utf8_pending_def)
  next
    case e
    then show ?thesis by (simp add: first_octet_def utf8_ok_def utf8_init_def utf8_pending_def)
  next
    case f
    then show ?thesis by (simp add: first_octet_def utf8_ok_def utf8_init_def utf8_pending_def)
  qed
  then show "utf8_ok (snd (first_octet b))"
    and "\<forall>c\<in>set (fst (first_octet b)). c < 0x110000"
    and "filter (\<lambda>c. c < 0x80) (fst (first_octet b)) = filter (\<lambda>c. c < 0x80) [b]"
    and "length (fst (first_octet b)) + utf8_pending (snd (first_octet b)) \<le> 1"
    by blast+
qed


lemma utf8_decode_ok:
  "utf8_ok st \<Longrightarrow> list_all (\<lambda>b. b < 256) bs \<Longrightarrow>
     (\<forall>c\<in>set (utf8_decode st bs). c < 0x110000)
     \<and> filter (\<lambda>c. c < 0x80) (utf8_decode st bs) = filter (\<lambda>c. c < 0x80) bs
     \<and> length (utf8_decode st bs) \<le> length bs + utf8_pending st"
proof (induction bs arbitrary: st)
  case Nil
  obtain cp needed lower upper where st: "st = (cp, needed, lower, upper)" by (cases st)
  show ?case by (simp add: st utf8_pending_def)
next
  case (Cons b bs)
  obtain cp needed lower upper where st: "st = (cp, needed, lower, upper)" by (cases st)
  from Cons.prems(2) have b: "b < 256" and rest: "list_all (\<lambda>b. b < 256) bs" by simp_all
  note fo = first_octet_ok[OF b]
  note ih1 = Cons.IH[OF fo(1) rest]
  have f3: "filter (\<lambda>c. c < 0x80) (fst (first_octet b)) = (if b < 0x80 then [b] else [])"
    using fo(3) by simp
  from Cons.prems(1) have lu: "0x80 \<le> lower" "upper \<le> 0xBF" by (simp_all add: st utf8_ok_def)
  show ?case
  proof (cases "needed = 0")
    case True
    have d: "utf8_decode st (b # bs) = fst (first_octet b) @ utf8_decode (snd (first_octet b)) bs"
      by (simp add: st True)
    have p: "utf8_pending st = 0" by (simp add: st True utf8_pending_def)
    from fo(2,4) f3 ih1 show ?thesis unfolding d p by auto
  next
    case nz: False
    then have p: "utf8_pending st = 1" by (simp add: st utf8_pending_def)
    show ?thesis
    proof (cases "b < lower \<or> upper < b")
      case True
      have d: "utf8_decode st (b # bs)
                 = 0xFFFD # fst (first_octet b) @ utf8_decode (snd (first_octet b)) bs"
        using nz True by (simp add: st)
      from fo(2,4) f3 ih1 show ?thesis unfolding d p by auto
    next
      case False
      then have bb: "128 \<le> b" "b \<le> 191" "lower \<le> b" "b \<le> upper" using lu by linarith+
      note m = continuation_mod[OF bb(1,2)]
      show ?thesis
      proof (cases "needed = 1")
        case True
        have d: "utf8_decode st (b # bs) = (cp * 64 + (b - 128)) # utf8_decode utf8_init bs"
          using nz False True by (simp add: st m)
        from Cons.prems(1) True have cp: "2 \<le> cp" "cp < 0x4400" by (simp_all add: st utf8_ok_def)
        have v: "128 \<le> cp * 64 + (b - 128)" "cp * 64 + (b - 128) < 0x110000"
          using cp bb by linarith+
        have i: "utf8_ok utf8_init" "utf8_pending utf8_init = 0"
          by (simp_all add: utf8_ok_def utf8_init_def utf8_pending_def)
        from Cons.IH[OF i(1) rest] v bb(1) show ?thesis unfolding d p i(2) by simp
      next
        case n1: False
        let ?st = "(cp * 64 + (b - 128), needed - 1, 0x80, 0xBF)"
        have d: "utf8_decode st (b # bs) = utf8_decode ?st bs"
          using nz False n1 by (simp add: st m)
        from Cons.prems(1) nz n1 have
          c: "(needed = 2 \<and> (1 \<le> cp \<or> 0x90 \<le> lower) \<and> cp * 64 + (upper - 128) < 0x4400)
           \<or> (needed = 3 \<and> (1 \<le> cp \<or> 0x90 \<le> lower)
               \<and> (cp * 64 + (upper - 128)) * 64 + 63 < 0x4400)"
          by (simp add: st utf8_ok_def)
        have lo: "1 \<le> cp \<or> 0x90 \<le> lower" using c by blast
        have ge: "16 \<le> cp * 64 + (b - 128)" using lo bb by linarith
        have le: "cp * 64 + (b - 128) \<le> cp * 64 + (upper - 128)" using bb by linarith
        have ok: "utf8_ok ?st"
        proof (cases "needed = 2")
          case True
          with c have "cp * 64 + (upper - 128) < 0x4400" by simp
          with le ge True show ?thesis by (simp add: utf8_ok_def)
        next
          case False
          with c have n3: "needed = 3" and u: "(cp * 64 + (upper - 128)) * 64 + 63 < 0x4400"
            by simp_all
          from le have "(cp * 64 + (b - 128)) * 64 \<le> (cp * 64 + (upper - 128)) * 64"
            by (rule mult_le_mono1)
          with u have "(cp * 64 + (b - 128)) * 64 + (191 - 128) < 0x4400" by simp
          with ge n3 show ?thesis by (simp add: utf8_ok_def)
        qed
        have q: "utf8_pending ?st = 1" using nz n1 by (simp add: utf8_pending_def)
        from Cons.IH[OF ok rest] bb(1) show ?thesis unfolding d p q by simp
      qed
    qed
  qed
qed


lemma filter_all_length: "length xs \<le> length (filter P xs) \<Longrightarrow> filter P xs = xs"
proof (induction xs)
  case Nil
  show ?case by simp
next
  case (Cons x xs)
  have l: "length (filter P xs) \<le> length xs" by (rule length_filter_le)
  show ?case
  proof (cases "P x")
    case True
    with Cons show ?thesis by simp
  next
    case False
    with Cons.prems l show ?thesis by simp
  qed
qed

lemma unat_of_nat_jschar: "c < 0x10000 \<Longrightarrow> unat (of_nat c :: jschar) = c"
  by (simp add: unat_of_nat)

lemma utf16_units_small: "c < 0x80 \<Longrightarrow> utf16_units c = [of_nat c]"
  by (simp add: utf16_units_def)

lemma utf16_units_large:
  assumes "0x80 \<le> c" "c < 0x110000"
  shows "\<exists>u us. utf16_units c = u # us \<and> 0x80 \<le> u"
proof (cases "c < 0x10000")
  case True
  with assms(1) have "0x80 \<le> (of_nat c :: jschar)"
    by (simp add: word_le_nat_alt unat_of_nat_jschar)
  with True show ?thesis by (simp add: utf16_units_def)
next
  case False
  let ?h = "0xD800 + (c - 0x10000) div 0x400"
  have "(c - 0x10000) div 0x400 < 0x400" using assms(2) by simp
  then have "?h < 0x10000" "0x80 \<le> ?h" by simp_all
  then have "0x80 \<le> (of_nat ?h :: jschar)"
    by (simp only: word_le_nat_alt unat_of_nat_jschar) simp
  with False show ?thesis by (simp add: utf16_units_def)
qed

lemma DEC_signature_only:
  assumes "DEC bs = str ''LE_ENC''" "length bs \<le> 6"
  shows "bs = [76, 69, 95, 69, 78, 67]"
proof -
  let ?ns = "map unat bs"
  let ?raw = "utf8_decode utf8_init ?ns"
  let ?cps = "strip_bom ?raw"
  let ?sig = "[76, 69, 95, 69, 78, 67] :: nat list"
  have all: "list_all (\<lambda>b. b < 256) ?ns"
  proof -
    have "unat b < 256" for b :: byte using unsigned_less[of b, where ?'a = nat] by simp
    then show ?thesis by (simp add: list_all_iff)
  qed
  have i: "utf8_ok utf8_init" "utf8_pending utf8_init = 0"
    by (simp_all add: utf8_ok_def utf8_init_def utf8_pending_def)
  from utf8_decode_ok[OF i(1) all] have
    k: "\<forall>c\<in>set ?raw. c < 0x110000"
       "filter (\<lambda>c. c < 0x80) ?raw = filter (\<lambda>c. c < 0x80) ?ns"
       "length ?raw \<le> length bs"
    by (simp_all add: i(2))
  have bom: "?raw = ?cps \<or> ?raw = 0xFEFF # ?cps"
    by (cases ?raw) (simp_all add: strip_bom_def)
  then have sub: "set ?cps \<subseteq> set ?raw" by (metis set_subset_Cons subset_refl)
  have units: "concat (map utf16_units ?cps) = str ''LE_ENC''"
    using assms(1) by (simp add: DEC_def)
  have sg: "\<forall>u\<in>set (str ''LE_ENC''). u < 0x80" by (simp add: str_def)
  have asc: "c < 0x80" if "c \<in> set ?cps" for c
  proof (rule ccontr)
    assume "\<not> c < 0x80"
    moreover from that sub k(1) have "c < 0x110000" by blast
    ultimately obtain u us where u: "utf16_units c = u # us" "0x80 \<le> u"
      using utf16_units_large[of c] by auto
    from that u(1) have "u \<in> set (concat (map utf16_units ?cps))" by force
    with units sg have "u < 0x80" by simp
    with u(2) show False by simp
  qed
  have "concat (map utf16_units cs) = map of_nat cs" if "\<forall>c\<in>set cs. c < 0x80" for cs
    using that by (induction cs) (simp_all add: utf16_units_small)
  from this[of ?cps] asc units have m: "map of_nat ?cps = str ''LE_ENC''" by simp
  have "map unat (map of_nat ?cps :: jsstring) = ?cps"
  proof -
    have "unat (of_nat c :: jschar) = c" if "c \<in> set ?cps" for c
      using asc[OF that] by (simp add: unat_of_nat_jschar)
    then show ?thesis by (simp add: map_idI)
  qed
  then have c: "?cps = ?sig" unfolding m by (simp add: str_def)
  have cz: "?raw = ?sig"
  proof (rule disjE[OF bom])
    assume "?raw = ?cps"
    with c show ?thesis by simp
  next
    assume "?raw = 0xFEFF # ?cps"
    then have "length ?raw = 7" using c by simp
    with k(3) assms(2) show ?thesis by simp
  qed
  have "length ?ns \<le> length (filter (\<lambda>c. c < 0x80) ?ns)"
    unfolding k(2)[symmetric] cz using assms(2) by simp
  from filter_all_length[OF this] k(2) cz have n: "?ns = ?sig" by simp
  have "bs = map of_nat ?ns" by (simp add: map_idI)
  then show ?thesis unfolding n by simp
qed

subsection \<open>The three formats\<close>

lemma probe_signature:
  "DEC (slice (slice bs 0 8) 0 6) = str ''LE_ENC'' \<longleftrightarrow> take 6 bs = ENC (str ''LE_ENC'')"
proof -
  have s: "slice (slice bs 0 8) 0 6 = take 6 bs" by (simp add: slice_nonneg)
  show ?thesis
  proof
    assume "DEC (slice (slice bs 0 8) 0 6) = str ''LE_ENC''"
    then have "DEC (take 6 bs) = str ''LE_ENC''" by (simp only: s)
    from DEC_signature_only[OF this] show "take 6 bs = ENC (str ''LE_ENC'')"
      by (simp add: ENC_signature)
  next
    assume "take 6 bs = ENC (str ''LE_ENC'')"
    then show "DEC (slice (slice bs 0 8) 0 6) = str ''LE_ENC''"
      by (simp only: s ENC_signature DEC_signature)
  qed
qed

lemma probe_magic:
  "nth_opt (slice bs 0 8) 0 = Some a \<and> nth_opt (slice bs 0 8) 1 = Some b \<longleftrightarrow> take 2 bs = [a, b]"
proof (cases bs)
  case Nil
  then show ?thesis by (simp add: slice_nonneg nth_opt_def)
next
  case (Cons x xs)
  then show ?thesis by (cases xs) (auto simp: slice_nonneg nth_opt_def)
qed

lemma importData_sniffed:
  "importData P C file answer opfs c =
     (case sniffed (concat file) of
        Encrypted \<Rightarrow>
          (case answer of
             None \<Rightarrow> ([], Failed PasswordRequired)
           | Some password \<Rightarrow>
               if password = [] then ([], Failed PasswordRequired)
               else tar_loop C opfs
                      (reader_new
                         (decompress P (DecryptionSource_readable P (file, Closed) password)))
                      c [])
      | Compressed \<Rightarrow> tar_loop C opfs (reader_new (decompress P (file, Closed))) c []
      | Plain \<Rightarrow> tar_loop C opfs (reader_new (file, Closed)) c [])"
  unfolding importData_def Let_def probe_signature probe_magic sniffed_def
  by simp


lemma sniffed_first:
  "bs = x # xs \<Longrightarrow> x \<noteq> 76 \<Longrightarrow> x \<noteq> 0x1f \<Longrightarrow> sniffed bs = Plain"
  by (simp add: sniffed_def ENC_signature)



end
